theory Spec2Isabelle
  imports
    Main
    "HOL-Library.Word"
    "HOL-Library.Signed_Division"
    "HOL-Library.Multiset"
begin

unbundle bit_operations_syntax

section \<open>Machine integers of the C++ sources\<close>

text \<open>
  \<^verbatim>\<open>int\<close> and \<^verbatim>\<open>unsigned int\<close> are 32 bits wide (\<^verbatim>\<open>LINK_CELL_TERMINATOR = 0xffffffff\<close>),
  \<^verbatim>\<open>size_t\<close> is 64 bits wide. A word carries the bits; \<open>sint\<close> reads an \<^verbatim>\<open>int\<close>,
  \<open>unat\<close> an \<^verbatim>\<open>unsigned int\<close>, and the conversion between the two keeps the bits.
  Signed comparisons are \<open>word_sle\<close> and \<open>word_sless\<close>.
\<close>

type_synonym cint = "32 word"
type_synonym cuint = "32 word"
type_synonym csize = "64 word"

section \<open>IteratorCellShell (LinkCell.h)\<close>

record IteratorCellShell =
  m_range :: cint
  m_stage :: nat
  m_current_x :: cint
  m_current_y :: cint
  m_current_z :: cint
  m_is2D :: bool

text \<open>\<^verbatim>\<open>void reset(unsigned int range)\<close>\<close>

definition reset :: "cuint \<Rightarrow> IteratorCellShell \<Rightarrow> IteratorCellShell" where
  "reset rng s =
     (let s = s\<lparr>m_range := rng\<rparr>;
          s = s\<lparr>m_stage := 0\<rparr>;
          s = s\<lparr>m_current_x := - m_range s\<rparr>;
          s = s\<lparr>m_current_y := m_range s\<rparr>;
          s = (if m_is2D s then s\<lparr>m_current_z := 0\<rparr>
               else s\<lparr>m_current_z := - m_range s + 1\<rparr>)
      in if rng = 0 then s\<lparr>m_current_z := 0, m_stage := 5\<rparr> else s)"

text \<open>\<^verbatim>\<open>IteratorCellShell(unsigned int range = 0, bool is2D = false)\<close>\<close>

definition IteratorCellShell_new :: "cuint \<Rightarrow> bool \<Rightarrow> IteratorCellShell" where
  "IteratorCellShell_new rng is2D =
     reset rng \<lparr>m_range = 0, m_stage = 0, m_current_x = 0, m_current_y = 0,
                  m_current_z = 0, m_is2D = is2D\<rparr>"

text \<open>
  The block repeated in the four wedge stages:
  \<^verbatim>\<open>if (!m_is2D) { m_current_z += wrapped; wrapped = m_current_z >= m_range;
                   m_current_z += wrapped * (1 - 2 * m_range); }\<close>
  It returns the state and the new value of \<^verbatim>\<open>wrapped\<close>.
\<close>

definition carry_z :: "bool \<Rightarrow> IteratorCellShell \<Rightarrow> IteratorCellShell \<times> bool" where
  "carry_z wrapped s =
     (if \<not> m_is2D s then
        (let s = s\<lparr>m_current_z := m_current_z s + of_bool wrapped\<rparr>;
             wrapped = word_sle (m_range s) (m_current_z s);
             s = s\<lparr>m_current_z := m_current_z s + of_bool wrapped * (1 - 2 * m_range s)\<rparr>
         in (s, wrapped))
      else (s, wrapped))"

text \<open>\<^verbatim>\<open>void operator++()\<close>, one case of the switch after the other.\<close>

definition incr_stage0 :: "IteratorCellShell \<Rightarrow> IteratorCellShell" where
  "incr_stage0 s =
     (let s = s\<lparr>m_current_x := m_current_x s + 1\<rparr>;
          wrapped = word_sle (m_range s) (m_current_x s);
          s = s\<lparr>m_current_x := m_current_x s - 2 * of_bool wrapped * m_range s\<rparr>;
          (s, wrapped) = carry_z wrapped s
      in if wrapped then s\<lparr>m_stage := m_stage s + 1, m_current_x := m_range s\<rparr> else s)"

definition incr_stage1 :: "IteratorCellShell \<Rightarrow> IteratorCellShell" where
  "incr_stage1 s =
     (let s = s\<lparr>m_current_y := m_current_y s - 1\<rparr>;
          wrapped = word_sle (m_current_y s) (- m_range s);
          s = s\<lparr>m_current_y := m_current_y s + 2 * of_bool wrapped * m_range s\<rparr>;
          (s, wrapped) = carry_z wrapped s
      in if wrapped then s\<lparr>m_stage := m_stage s + 1, m_current_y := - m_range s\<rparr> else s)"

definition incr_stage2 :: "IteratorCellShell \<Rightarrow> IteratorCellShell" where
  "incr_stage2 s =
     (let s = s\<lparr>m_current_x := m_current_x s - 1\<rparr>;
          wrapped = word_sle (m_current_x s) (- m_range s);
          s = s\<lparr>m_current_x := m_current_x s + 2 * of_bool wrapped * m_range s\<rparr>;
          (s, wrapped) = carry_z wrapped s
      in if wrapped then s\<lparr>m_stage := m_stage s + 1, m_current_x := - m_range s\<rparr> else s)"

definition incr_stage3 :: "IteratorCellShell \<Rightarrow> IteratorCellShell" where
  "incr_stage3 s =
     (let s = s\<lparr>m_current_y := m_current_y s + 1\<rparr>;
          wrapped = word_sle (m_range s) (m_current_y s);
          s = s\<lparr>m_current_y := m_current_y s - 2 * of_bool wrapped * m_range s\<rparr>;
          (s, wrapped) = carry_z wrapped s
      in if wrapped then
           (if m_is2D s then reset (m_range s + 1) s
            else s\<lparr>m_stage := m_stage s + 1, m_current_x := - m_range s,
                   m_current_y := - m_range s, m_current_z := - m_range s\<rparr>)
         else s)"

definition incr_default :: "IteratorCellShell \<Rightarrow> IteratorCellShell" where
  "incr_default s =
     (let s = s\<lparr>m_current_x := m_current_x s + 1\<rparr>;
          wrapped = word_sless (m_range s) (m_current_x s);
          s = s\<lparr>m_current_x := m_current_x s - of_bool wrapped * (2 * m_range s + 1)\<rparr>;
          s = s\<lparr>m_current_y := m_current_y s + of_bool wrapped\<rparr>;
          wrapped = word_sless (m_range s) (m_current_y s);
          s = s\<lparr>m_current_y := m_current_y s - of_bool wrapped * (2 * m_range s + 1)\<rparr>
      in if wrapped then
           (let s = s\<lparr>m_stage := m_stage s + 1\<rparr>;
                s = s\<lparr>m_current_z := m_range s\<rparr>
            in if m_stage s > 5 then reset (m_range s + 1) s else s)
         else s)"

definition incr :: "IteratorCellShell \<Rightarrow> IteratorCellShell" where
  "incr s =
     (if m_stage s = 0 then incr_stage0 s
      else if m_stage s = 1 then incr_stage1 s
      else if m_stage s = 2 then incr_stage2 s
      else if m_stage s = 3 then incr_stage3 s
      else incr_default s)"

text \<open>\<^verbatim>\<open>vec3<int> operator*()\<close>\<close>

definition deref :: "IteratorCellShell \<Rightarrow> cint \<times> cint \<times> cint" where
  "deref s = (m_current_x s, m_current_y s, m_current_z s)"

text \<open>\<^verbatim>\<open>bool operator==(const IteratorCellShell& other)\<close> and \<^verbatim>\<open>operator!=\<close>\<close>

definition op_eq :: "IteratorCellShell \<Rightarrow> IteratorCellShell \<Rightarrow> bool" where
  "op_eq s other \<longleftrightarrow>
     m_range s = m_range other \<and> m_current_x s = m_current_x other
     \<and> m_current_y s = m_current_y other \<and> m_current_z s = m_current_z other
     \<and> m_stage s = m_stage other \<and> m_is2D s = m_is2D other"

definition op_neq :: "IteratorCellShell \<Rightarrow> IteratorCellShell \<Rightarrow> bool" where
  "op_neq s other \<longleftrightarrow> \<not> op_eq s other"

text \<open>
  The loop of the class documentation,
  \<^verbatim>\<open>for (IteratorCellShell iter(a); iter != IteratorCellShell(b); ++iter) { ... *iter ... }\<close>,
  collecting the offsets it visits. The loop need not end: \<open>None\<close> is a loop that
  runs forever.
\<close>

partial_function (option) shell_loop ::
  "IteratorCellShell \<Rightarrow> IteratorCellShell \<Rightarrow> (cint \<times> cint \<times> cint) list
     \<Rightarrow> (cint \<times> cint \<times> cint) list option" where
  "shell_loop iter target acc =
     (if op_neq iter target then shell_loop (incr iter) target (acc @ [deref iter])
      else Some acc)"

declare shell_loop.simps [code]

definition shell_offsets :: "cuint \<Rightarrow> bool \<Rightarrow> (cint \<times> cint \<times> cint) list option" where
  "shell_offsets N is2D =
     shell_loop (IteratorCellShell_new N is2D) (IteratorCellShell_new (N + 1) is2D) []"

subsection \<open>Vocabulary for the shell enumeration\<close>

text \<open>
  An \<^verbatim>\<open>int\<close> offset is read back as a mathematical integer by \<open>sint\<close>. The shell of
  range \<open>N\<close> is the set of offsets at Chebyshev distance \<open>N\<close> from the origin; in two
  dimensions the third component is 0.
\<close>

definition sint3 :: "cint \<times> cint \<times> cint \<Rightarrow> int \<times> int \<times> int" where
  "sint3 p = (case p of (x, y, z) \<Rightarrow> (sint x, sint y, sint z))"

definition cheb_shell :: "nat \<Rightarrow> bool \<Rightarrow> (int \<times> int \<times> int) set" where
  "cheb_shell N is2D =
     {(dx, dy, dz). max \<bar>dx\<bar> (max \<bar>dy\<bar> \<bar>dz\<bar>) = int N \<and> (is2D \<longrightarrow> dz = 0)}"

text \<open>
  The enumeration property for one range and one dimensionality flag: the loop from the
  initial state of shell \<open>N\<close> to the initial state of shell \<open>N + 1\<close> ends, and the offsets
  it visits are pairwise different and are exactly the shell.
\<close>

definition shell_claim :: "nat \<Rightarrow> bool \<Rightarrow> bool" where
  "shell_claim N is2D \<longleftrightarrow>
     (\<exists>L. shell_offsets (of_nat N) is2D = Some L \<and> distinct (map sint3 L)
        \<and> set (map sint3 L) = cheb_shell N is2D)"

text \<open>
  Proof vocabulary. \<open>cint_of\<close> embeds an integer into \<^verbatim>\<open>int\<close>; it is faithful on
  \<open>in_cint\<close>. \<open>shell_state\<close> is an iterator with the given integer fields, \<open>path s tr t\<close>
  says that repeated \<^verbatim>\<open>++\<close> from \<open>s\<close> passes through the states \<open>tr\<close> and arrives at
  \<open>t\<close>, and \<open>grid f xs ys\<close> is a doubly nested loop with the first index running fastest.
\<close>

definition in_cint :: "int \<Rightarrow> bool" where
  "in_cint a \<longleftrightarrow> - (2 ^ 31) \<le> a \<and> a < 2 ^ 31"

definition cint_of :: "int \<Rightarrow> cint" where
  "cint_of a = word_of_int a"

definition shell_state :: "int \<Rightarrow> nat \<Rightarrow> int \<Rightarrow> int \<Rightarrow> int \<Rightarrow> bool \<Rightarrow> IteratorCellShell" where
  "shell_state N st x y z d =
     \<lparr>m_range = cint_of N, m_stage = st, m_current_x = cint_of x, m_current_y = cint_of y,
      m_current_z = cint_of z, m_is2D = d\<rparr>"

inductive path :: "IteratorCellShell \<Rightarrow> IteratorCellShell list \<Rightarrow> IteratorCellShell \<Rightarrow> bool" where
  path_Nil: "path s [] s"
| path_Cons: "path (incr s) tr t \<Longrightarrow> path s (s # tr) t"

definition grid :: "(int \<Rightarrow> int \<Rightarrow> 'a) \<Rightarrow> int list \<Rightarrow> int list \<Rightarrow> 'a list" where
  "grid f xs ys = concat (map (\<lambda>j. map (\<lambda>i. f i j) xs) ys)"

text \<open>
  The states one shell passes through: four wedges and two caps in three dimensions,
  four sides of a ring in two.
\<close>

definition trace3 :: "int \<Rightarrow> IteratorCellShell list" where
  "trace3 N =
     grid (\<lambda>x z. shell_state N 0 x N z False) [- N..N - 1] [1 - N..N - 1] @
     grid (\<lambda>i z. shell_state N (Suc 0) N (- i) z False) [- N..N - 1] [1 - N..N - 1] @
     grid (\<lambda>i z. shell_state N 2 (- i) (- N) z False) [- N..N - 1] [1 - N..N - 1] @
     grid (\<lambda>y z. shell_state N 3 (- N) y z False) [- N..N - 1] [1 - N..N - 1] @
     grid (\<lambda>x y. shell_state N 4 x y (- N) False) [- N..N] [- N..N] @
     grid (\<lambda>x y. shell_state N 5 x y N False) [- N..N] [- N..N]"

definition trace2 :: "int \<Rightarrow> IteratorCellShell list" where
  "trace2 N =
     map (\<lambda>x. shell_state N 0 x N 0 True) [- N..N - 1] @
     map (\<lambda>i. shell_state N (Suc 0) N (- i) 0 True) [- N..N - 1] @
     map (\<lambda>i. shell_state N 2 (- i) (- N) 0 True) [- N..N - 1] @
     map (\<lambda>y. shell_state N 3 (- N) y 0 True) [- N..N - 1]"

definition offs3 :: "int \<Rightarrow> (int \<times> int \<times> int) list" where
  "offs3 N =
     grid (\<lambda>x z. (x, N, z)) [- N..N - 1] [1 - N..N - 1] @
     grid (\<lambda>i z. (N, - i, z)) [- N..N - 1] [1 - N..N - 1] @
     grid (\<lambda>i z. (- i, - N, z)) [- N..N - 1] [1 - N..N - 1] @
     grid (\<lambda>y z. (- N, y, z)) [- N..N - 1] [1 - N..N - 1] @
     grid (\<lambda>x y. (x, y, - N)) [- N..N] [- N..N] @
     grid (\<lambda>x y. (x, y, N)) [- N..N] [- N..N]"

definition offs2 :: "int \<Rightarrow> (int \<times> int \<times> int) list" where
  "offs2 N =
     map (\<lambda>x. (x, N, 0)) [- N..N - 1] @
     map (\<lambda>i. (N, - i, 0)) [- N..N - 1] @
     map (\<lambda>i. (- i, - N, 0)) [- N..N - 1] @
     map (\<lambda>y. (- N, y, 0)) [- N..N - 1]"

text \<open>
  In stage 5 the third coordinate equals the range: it holds after \<^verbatim>\<open>reset(0)\<close> and when
  stage 4 hands over, and stage 5 does not touch \<^verbatim>\<open>m_current_z\<close>.
\<close>

definition stage5_inv :: "IteratorCellShell \<Rightarrow> bool" where
  "stage5_inv s \<longleftrightarrow> (m_stage s = 5 \<longrightarrow> m_current_z s = m_range s)"

section \<open>IteratorLinkCell and LinkCell (LinkCell.h)\<close>

text \<open>
  What C++ leaves undefined is a value of the model: a read through a null pointer, a read
  outside an array, a read of a deleted array, a division by zero, an \<^verbatim>\<open>int\<close> overflow, a failed \<^verbatim>\<open>assert\<close>.
\<close>

datatype fault =
  NullPointer | OutOfBounds | UseAfterFree | DivisionByZero | SignedOverflow | AssertionFailed

text \<open>
  \<^verbatim>\<open>p[i]\<close> for a pointer \<^verbatim>\<open>p\<close> to the first element of an array and an unsigned
  index; \<open>None\<close> is the null pointer.
\<close>

definition array_read :: "'a list option \<Rightarrow> 'n::len word \<Rightarrow> fault + 'a" where
  "array_read p i =
     (case p of
        None \<Rightarrow> Inl NullPointer
      | Some xs \<Rightarrow> if unat i < length xs then Inr (xs ! unat i) else Inl OutOfBounds)"

definition LINK_CELL_TERMINATOR :: cuint where
  "LINK_CELL_TERMINATOR = 0xffffffff"

record IteratorLinkCell =
  m_cell_list :: "cuint list option"
  m_Np :: cuint
  m_Nc :: cuint
  m_cur_idx :: cuint
  m_cell :: cuint

text \<open>\<^verbatim>\<open>IteratorLinkCell()\<close>\<close>

definition IteratorLinkCell_default :: IteratorLinkCell where
  "IteratorLinkCell_default =
     \<lparr>m_cell_list = None, m_Np = 0, m_Nc = 0, m_cur_idx = LINK_CELL_TERMINATOR, m_cell = 0\<rparr>"

text \<open>
  \<^verbatim>\<open>IteratorLinkCell(const std::shared_ptr<unsigned int>& cell_list, unsigned int Np,
  unsigned int Nc, unsigned int cell)\<close>, with its three assertions.
\<close>

definition IteratorLinkCell_new ::
  "cuint list option \<Rightarrow> cuint \<Rightarrow> cuint \<Rightarrow> cuint \<Rightarrow> fault + IteratorLinkCell" where
  "IteratorLinkCell_new cell_list Np Nc cell =
     (if \<not> cell < Nc then Inl AssertionFailed
      else if \<not> Np > 0 then Inl AssertionFailed
      else if \<not> Nc > 0 then Inl AssertionFailed
      else Inr \<lparr>m_cell_list = cell_list, m_Np = Np, m_Nc = Nc, m_cur_idx = Np + cell,
                m_cell = cell\<rparr>)"

text \<open>\<^verbatim>\<open>void copy(const IteratorLinkCell& rhs)\<close>\<close>

definition copy :: "IteratorLinkCell \<Rightarrow> IteratorLinkCell \<Rightarrow> IteratorLinkCell" where
  "copy rhs it =
     it\<lparr>m_cell_list := m_cell_list rhs, m_Np := m_Np rhs, m_Nc := m_Nc rhs,
        m_cur_idx := m_cur_idx rhs, m_cell := m_cell rhs\<rparr>"

text \<open>\<^verbatim>\<open>bool atEnd()\<close>\<close>

definition atEnd :: "IteratorLinkCell \<Rightarrow> bool" where
  "atEnd it \<longleftrightarrow> m_cur_idx it = LINK_CELL_TERMINATOR"

text \<open>
  \<^verbatim>\<open>unsigned int next()\<close>: \<^verbatim>\<open>m_cur_idx = m_cell_list[m_cur_idx]; return m_cur_idx;\<close>
  The result is the value returned and the iterator after the call.
\<close>

definition "next" :: "IteratorLinkCell \<Rightarrow> fault + (cuint \<times> IteratorLinkCell)" where
  "next it =
     (case array_read (m_cell_list it) (m_cur_idx it) of
        Inl e \<Rightarrow> Inl e
      | Inr v \<Rightarrow> Inr (v, it\<lparr>m_cur_idx := v\<rparr>))"

text \<open>\<^verbatim>\<open>unsigned int begin()\<close>\<close>

definition "begin" :: "IteratorLinkCell \<Rightarrow> fault + (cuint \<times> IteratorLinkCell)" where
  "begin it =
     (let it = it\<lparr>m_cur_idx := m_Np it + m_cell it\<rparr>
      in case array_read (m_cell_list it) (m_cur_idx it) of
           Inl e \<Rightarrow> Inl e
         | Inr v \<Rightarrow> Inr (v, it\<lparr>m_cur_idx := v\<rparr>))"

text \<open>
  The property of C5 as the claim words it, for one iterator: once \<^verbatim>\<open>atEnd()\<close> is true,
  one more \<^verbatim>\<open>next()\<close> is well-defined.
\<close>

definition over_advance_defined :: "IteratorLinkCell \<Rightarrow> bool" where
  "over_advance_defined it \<longleftrightarrow> \<not> atEnd it \<or> (\<exists>r. next it = Inr r)"

subsection \<open>Index3D\<close>

text \<open>
  Modelled from the spec: \<^verbatim>\<open>Index3D\<close> (\<^verbatim>\<open>Index1D.h\<close>) is not among the sources. The spec
  gives it as the flat-index collaborator with width, height and depth accessors and
  ``row-major linearization over (width, height, depth)''; the arithmetic is that of
  \<^verbatim>\<open>unsigned int\<close>.
\<close>

record Index3D =
  m_w :: cuint
  m_h :: cuint
  m_d :: cuint

definition getW :: "Index3D \<Rightarrow> cuint" where
  "getW idx = m_w idx"

definition getH :: "Index3D \<Rightarrow> cuint" where
  "getH idx = m_h idx"

definition getD :: "Index3D \<Rightarrow> cuint" where
  "getD idx = m_d idx"

definition getNumElements :: "Index3D \<Rightarrow> cuint" where
  "getNumElements idx = m_w idx * m_h idx * m_d idx"

definition Index3D_call :: "Index3D \<Rightarrow> cuint \<Rightarrow> cuint \<Rightarrow> cuint \<Rightarrow> cuint" where
  "Index3D_call idx i j k = (i * m_h idx + j) * m_d idx + k"

subsection \<open>LinkCell\<close>

text \<open>
  The members of \<^verbatim>\<open>LinkCell\<close> that the inline functions of the header read. The type
  \<open>'f\<close> stands for \<^verbatim>\<open>float\<close>.
\<close>

record 'f LinkCell =
  m_cell_index :: Index3D
  m_n_points :: cuint
  m_cell_width :: 'f

definition getCellIndexer :: "'f LinkCell \<Rightarrow> Index3D" where
  "getCellIndexer lc = m_cell_index lc"

definition getNumCells :: "'f LinkCell \<Rightarrow> cuint" where
  "getNumCells lc = getNumElements (m_cell_index lc)"

definition getCellWidth :: "'f LinkCell \<Rightarrow> 'f" where
  "getCellWidth lc = m_cell_width lc"

text \<open>
  \<^verbatim>\<open>a % b\<close> on \<^verbatim>\<open>int\<close>: the remainder of the division that truncates towards zero;
  undefined for a zero divisor and for \<^verbatim>\<open>INT_MIN % -1\<close>.
\<close>

definition int_rem :: "cint \<Rightarrow> cint \<Rightarrow> fault + cint" where
  "int_rem a b =
     (if b = 0 then Inl DivisionByZero
      else if a = - (2 ^ 31) \<and> b = - 1 then Inl SignedOverflow
      else Inr (word_of_int (sint a smod sint b)))"

text \<open>
  One axis of \<^verbatim>\<open>getCellIndex\<close>: \<^verbatim>\<open>int x = cellCoord.x % w; x += (x < 0 ? w : 0);\<close>
\<close>

definition wrap_axis :: "cint \<Rightarrow> cint \<Rightarrow> fault + cint" where
  "wrap_axis c w =
     (case int_rem c w of
        Inl e \<Rightarrow> Inl e
      | Inr x \<Rightarrow> Inr (x + (if word_sless x 0 then w else 0)))"

text \<open>\<^verbatim>\<open>unsigned int getCellIndex(const vec3<int> cellCoord) const\<close>\<close>

definition getCellIndex :: "'f LinkCell \<Rightarrow> cint \<times> cint \<times> cint \<Rightarrow> fault + cuint" where
  "getCellIndex lc cellCoord =
     (case cellCoord of (cx, cy, cz) \<Rightarrow>
        let w = getW (getCellIndexer lc);
            h = getH (getCellIndexer lc);
            d = getD (getCellIndexer lc)
        in case wrap_axis cx w of Inl e \<Rightarrow> Inl e | Inr x \<Rightarrow>
           (case wrap_axis cy h of Inl e \<Rightarrow> Inl e | Inr y \<Rightarrow>
           (case wrap_axis cz d of Inl e \<Rightarrow> Inl e | Inr z \<Rightarrow>
              Inr (Index3D_call (getCellIndexer lc) x y z))))"


subsection \<open>LinkCellQueryBallIterator\<close>

text \<open>
  The members the constructor of the header sets: the shell iterator of the base class,
  the query point index and the self-exclusion flag, the cutoff and the extra search
  width. \<^verbatim>\<open>m_cell_iter\<close> and \<^verbatim>\<open>m_searched_cells\<close> need the cell of the query point, whose
  computation is \<^verbatim>\<open>float\<close> arithmetic, and are left out.
\<close>

record 'f LinkCellQueryBallIterator =
  m_neigh_cell_iter :: IteratorCellShell
  m_query_point_idx :: cuint
  m_exclude_ii :: bool
  m_r_max :: 'f
  m_extra_search_width :: cint

text \<open>
  \<^verbatim>\<open>LinkCellQueryBallIterator(neighbor_query, query_point, query_point_idx, r_max,
  exclude_ii)\<close>. The comparison \<^verbatim>\<open>==\<close> of two \<^verbatim>\<open>float\<close> values is the parameter
  \<open>float_eq\<close>, and \<open>is2D\<close> is \<^verbatim>\<open>neighbor_query->getBox().is2D()\<close>.
\<close>

definition LinkCellQueryBallIterator_new ::
  "('f \<Rightarrow> 'f \<Rightarrow> bool) \<Rightarrow> 'f LinkCell \<Rightarrow> bool \<Rightarrow> cuint \<Rightarrow> 'f \<Rightarrow> bool
     \<Rightarrow> 'f LinkCellQueryBallIterator" where
  "LinkCellQueryBallIterator_new float_eq neighbor_query is2D query_point_idx r_max exclude_ii =
     (let it = \<lparr>m_neigh_cell_iter = IteratorCellShell_new 0 is2D,
                m_query_point_idx = query_point_idx, m_exclude_ii = exclude_ii,
                m_r_max = r_max, m_extra_search_width = 0\<rparr>
      in if float_eq (m_r_max it) (getCellWidth neighbor_query)
         then it\<lparr>m_extra_search_width := 0\<rparr>
         else it\<lparr>m_extra_search_width := 1\<rparr>)"



definition chain_cells :: "cuint list" where
  "chain_cells = [0xffffffff, 0]"

definition chain_it0 :: IteratorLinkCell where
  "chain_it0 = \<lparr>m_cell_list = Some chain_cells, m_Np = 1, m_Nc = 1, m_cur_idx = 1, m_cell = 0\<rparr>"

definition chain_it1 :: IteratorLinkCell where
  "chain_it1 = chain_it0\<lparr>m_cur_idx := 0\<rparr>"

definition chain_it2 :: IteratorLinkCell where
  "chain_it2 = chain_it0\<lparr>m_cur_idx := 0xffffffff\<rparr>"

text \<open>
  A grid of \<open>0xffffffff\<close> by 1 by 1 cells: every count is at least 1, and the first one
  does not fit an \<^verbatim>\<open>int\<close>.
\<close>

definition wide_grid :: "unit LinkCell" where
  "wide_grid =
     \<lparr>m_cell_index = \<lparr>m_w = 0xffffffff, m_h = 1, m_d = 1\<rparr>, m_n_points = 1, m_cell_width = ()\<rparr>"

section \<open>NeighborComputeFunctional.h\<close>

subsection \<open>Collaborators of the pair-compute driver\<close>

text \<open>
  Modelled from the spec: \<^verbatim>\<open>NeighborList\<close> (\<^verbatim>\<open>NeighborList.h\<close>) is not among the sources.
  The spec gives it as the bond-list collaborator, ``a read-only view exposing, per stored
  bond, the two point ids, distance, and weight, plus the count of stored bonds''. The
  driver reads it through \<^verbatim>\<open>getNeighbors()\<close> (a flat array of \<^verbatim>\<open>size_t\<close>, two per bond),
  \<^verbatim>\<open>getDistances()\<close>, \<^verbatim>\<open>getWeights()\<close> and \<^verbatim>\<open>getNumBonds()\<close>.
\<close>

record 'f NeighborList =
  m_neighbors :: "csize list"
  m_distances :: "'f list"
  m_weights :: "'f list"
  m_num_bonds :: csize

definition getNeighbors :: "'f NeighborList \<Rightarrow> csize list option" where
  "getNeighbors nlist = Some (m_neighbors nlist)"

definition getDistances :: "'f NeighborList \<Rightarrow> 'f list option" where
  "getDistances nlist = Some (m_distances nlist)"

definition getWeights :: "'f NeighborList \<Rightarrow> 'f list option" where
  "getWeights nlist = Some (m_weights nlist)"

definition getNumBonds :: "'f NeighborList \<Rightarrow> csize" where
  "getNumBonds nlist = m_num_bonds nlist"

text \<open>
  A bond list whose arrays have the lengths its bond count promises.
\<close>

definition wf_nlist :: "'f NeighborList \<Rightarrow> bool" where
  "wf_nlist nlist \<longleftrightarrow>
     length (m_neighbors nlist) = 2 * unat (m_num_bonds nlist)
     \<and> length (m_distances nlist) = unat (m_num_bonds nlist)
     \<and> length (m_weights nlist) = unat (m_num_bonds nlist)
     \<and> 2 * unat (m_num_bonds nlist) < 2 ^ 64"

text \<open>
  Modelled from the spec: \<^verbatim>\<open>NeighborPoint\<close>, \<^verbatim>\<open>QueryArgs\<close> and the per-point query
  iterator (\<^verbatim>\<open>NeighborQuery.h\<close>) are not among the sources. The spec gives a query as ``a
  lazy, finite, one-pass sequence of neighbor bonds per query point''; the driver uses it
  through \<^verbatim>\<open>next()\<close> and \<^verbatim>\<open>end()\<close>, and \<^verbatim>\<open>end()\<close> holds once \<^verbatim>\<open>next()\<close> has found the
  sequence exhausted and returned the terminator.
\<close>

record 'f NeighborPoint =
  ref_id :: cuint
  distance :: 'f

record QueryArgs =
  exclude_ii :: bool

record 'f NeighborQueryIterator =
  pending :: "'f NeighborPoint list"
  finished :: bool
  terminator :: "'f NeighborPoint"

definition query_next :: "'f NeighborQueryIterator \<Rightarrow> 'f NeighborPoint \<times> 'f NeighborQueryIterator" where
  "query_next it =
     (case pending it of
        [] \<Rightarrow> (terminator it, it\<lparr>finished := True\<rparr>)
      | p # ps \<Rightarrow> (p, it\<lparr>pending := ps\<rparr>))"

definition query_end :: "'f NeighborQueryIterator \<Rightarrow> bool" where
  "query_end it \<longleftrightarrow> finished it"

text \<open>
  One invocation of the caller's pairwise function \<^verbatim>\<open>cf\<close>, with its four arguments. In
  bond-list mode the ids are \<^verbatim>\<open>size_t\<close> and the weight a \<^verbatim>\<open>float\<close>; in live-query mode the
  reference id is an \<^verbatim>\<open>unsigned int\<close> and the weight the \<^verbatim>\<open>int\<close> literal.
\<close>

datatype 'f pair_call =
  BondCall csize csize 'f 'f
| QueryCall cuint csize 'f cint

text \<open>
  Modelled from the spec: \<^verbatim>\<open>tbb::parallel_for\<close> over a \<^verbatim>\<open>tbb::blocked_range<size_t>\<close> (TBB is
  not among the sources). The spec: it ``partitions the bond array into contiguous ranges
  and processes ranges concurrently; no ordering guarantee across ranges''. A partition is
  a list of subranges \<open>(begin, end)\<close> that tile the range; each subrange is handed to the
  body once; the calls the bodies make are observed in some interleaving, each body's own
  calls in its order. A body that faults makes the whole run a fault.
\<close>

fun tiles :: "csize \<Rightarrow> csize \<Rightarrow> (csize \<times> csize) list \<Rightarrow> bool" where
  "tiles b e [] \<longleftrightarrow> b = e"
| "tiles b e ((b', e') # rs) \<longleftrightarrow> b' = b \<and> b \<le> e' \<and> e' \<le> e \<and> tiles e' e rs"

fun interleavings :: "'a list list \<Rightarrow> 'a list set" where
  "interleavings [] = {[]}"
| "interleavings (xs # xss) = (\<Union>t \<in> interleavings xss. shuffles xs t)"

definition parallel_for ::
  "(csize \<times> csize) list \<Rightarrow> (csize \<Rightarrow> csize \<Rightarrow> fault + 'c list) \<Rightarrow> (fault + 'c list) set" where
  "parallel_for rs body =
     (if list_ex (\<lambda>r. isl (body (fst r) (snd r))) rs
      then Inl ` set (map (\<lambda>r. projl (body (fst r) (snd r)))
                    (filter (\<lambda>r. isl (body (fst r) (snd r))) rs))
      else Inr ` interleavings (map (\<lambda>r. projr (body (fst r) (snd r))) rs))"

subsection \<open>makeNewEmptyArray and ETSArrayWrapper\<close>

text \<open>
  A \<^verbatim>\<open>T*\<close> that the wrapper hands out: null, an array of its own, or an array that has
  been deleted.
\<close>

datatype 'a buffer_ptr = Null | Array "'a list" | Deleted

text \<open>
  \<^verbatim>\<open>T* makeNewEmptyArray(unsigned int size)\<close>: \<^verbatim>\<open>new T[size]\<close>, then \<^verbatim>\<open>memset\<close> to 0.
\<close>

definition makeNewEmptyArray :: "cuint \<Rightarrow> ('a::zero) buffer_ptr" where
  "makeNewEmptyArray sz = Array (replicate (unat sz) 0)"

text \<open>
  Modelled from the spec: \<^verbatim>\<open>tbb::enumerable_thread_specific<T*>\<close> (TBB is not among the
  sources) holds one element per worker, ``lazily allocated \<dots> on first use by that
  worker'' by the initialiser it was constructed with. The wrapper constructs it with one
  of two lambdas, which are the two values of \<open>ets_init\<close>; the second one captures
  \<^verbatim>\<open>this\<close> and reads \<^verbatim>\<open>m_size\<close> when it runs. Workers are numbered.
\<close>

datatype ets_init = ReturnNullptr | MakeNewEmptyArray

record 'a enumerable_thread_specific =
  finit :: ets_init
  elements :: "nat \<rightharpoonup> 'a buffer_ptr"

record 'a ETSArrayWrapper =
  array :: "'a enumerable_thread_specific"
  m_size :: cuint

text \<open>\<^verbatim>\<open>ETSArrayWrapper()\<close>\<close>

definition ETSArrayWrapper_default :: "'a ETSArrayWrapper" where
  "ETSArrayWrapper_default =
     \<lparr>array = \<lparr>finit = ReturnNullptr, elements = Map.empty\<rparr>, m_size = 0\<rparr>"

text \<open>\<^verbatim>\<open>ETSArrayWrapper(unsigned int size)\<close>\<close>

definition ETSArrayWrapper_sized :: "cuint \<Rightarrow> 'a ETSArrayWrapper" where
  "ETSArrayWrapper_sized sz =
     \<lparr>array = \<lparr>finit = MakeNewEmptyArray, elements = Map.empty\<rparr>, m_size = sz\<rparr>"

text \<open>
  \<^verbatim>\<open>void deleteArray()\<close>: \<^verbatim>\<open>delete[]\<close> on every element; deleting a null pointer does
  nothing.
\<close>

definition deleteArray :: "'a ETSArrayWrapper \<Rightarrow> 'a ETSArrayWrapper" where
  "deleteArray w =
     w\<lparr>array := (array w)\<lparr>elements :=
         (\<lambda>t. case elements (array w) t of
                 None \<Rightarrow> None
               | Some Null \<Rightarrow> Some Null
               | Some _ \<Rightarrow> Some Deleted)\<rparr>\<rparr>"

text \<open>\<^verbatim>\<open>void update(unsigned int size)\<close>\<close>

definition update :: "cuint \<Rightarrow> 'a ETSArrayWrapper \<Rightarrow> 'a ETSArrayWrapper" where
  "update sz w =
     (let w = w\<lparr>m_size := sz\<rparr>;
          w = deleteArray w
      in w\<lparr>array := \<lparr>finit = MakeNewEmptyArray, elements = Map.empty\<rparr>\<rparr>)"

text \<open>
  \<^verbatim>\<open>array.local()\<close> called by worker \<open>t\<close>: the worker's element, made by the initialiser
  on the first access.
\<close>

definition run_finit :: "('a::zero) ETSArrayWrapper \<Rightarrow> 'a buffer_ptr" where
  "run_finit w =
     (case finit (array w) of
        ReturnNullptr \<Rightarrow> Null
      | MakeNewEmptyArray \<Rightarrow> makeNewEmptyArray (m_size w))"

definition local :: "nat \<Rightarrow> ('a::zero) ETSArrayWrapper \<Rightarrow> 'a buffer_ptr \<times> 'a ETSArrayWrapper" where
  "local t w =
     (case elements (array w) t of
        Some p \<Rightarrow> (p, w)
      | None \<Rightarrow>
          (let p = run_finit w
           in (p, w\<lparr>array := (array w)\<lparr>elements := (elements (array w))(t \<mapsto> p)\<rparr>\<rparr>)))"

text \<open>
  What a worker does with its buffer: \<^verbatim>\<open>array.local()[i]\<close> read, and
  \<^verbatim>\<open>array.local()[i] = v\<close>.
\<close>

definition buffer_read :: "'a buffer_ptr \<Rightarrow> nat \<Rightarrow> fault + 'a" where
  "buffer_read p i =
     (case p of
        Null \<Rightarrow> Inl NullPointer
      | Deleted \<Rightarrow> Inl UseAfterFree
      | Array xs \<Rightarrow> if i < length xs then Inr (xs ! i) else Inl OutOfBounds)"

definition local_write ::
  "nat \<Rightarrow> nat \<Rightarrow> 'a \<Rightarrow> ('a::zero) ETSArrayWrapper \<Rightarrow> fault + 'a ETSArrayWrapper" where
  "local_write t i v w =
     (case local t w of (p, w) \<Rightarrow>
        (case p of
           Null \<Rightarrow> Inl NullPointer
         | Deleted \<Rightarrow> Inl UseAfterFree
         | Array xs \<Rightarrow>
             if i < length xs
             then Inr (w\<lparr>array := (array w)\<lparr>elements :=
                        (elements (array w))(t \<mapsto> Array (xs[i := v]))\<rparr>\<rparr>)
             else Inl OutOfBounds))"

text \<open>
  A history of accesses by workers between two calls of the wrapper's own functions.
\<close>

datatype 'a worker_op = Access nat | Write nat nat 'a

fun worker :: "'a worker_op \<Rightarrow> nat" where
  "worker (Access t) = t"
| "worker (Write t i v) = t"

fun run_ops :: "'a worker_op list \<Rightarrow> ('a::zero) ETSArrayWrapper \<Rightarrow> fault + 'a ETSArrayWrapper" where
  "run_ops [] w = Inr w"
| "run_ops (Access t # ops) w = run_ops ops (snd (local t w))"
| "run_ops (Write t i v # ops) w =
     (case local_write t i v w of Inl e \<Rightarrow> Inl e | Inr w' \<Rightarrow> run_ops ops w')"

subsection \<open>The loops over pairs\<close>

text \<open>
  The body of \<^verbatim>\<open>loop_over_NeighborList_parallel\<close> on one subrange:
  \<^verbatim>\<open>for (size_t bond = r.begin(); bond != r.end(); ++bond)\<close>.
\<close>

definition bond_call :: "'f NeighborList \<Rightarrow> csize \<Rightarrow> fault + 'f pair_call" where
  "bond_call nlist bond =
     (case array_read (getNeighbors nlist) (2 * bond) of Inl e \<Rightarrow> Inl e | Inr i \<Rightarrow>
     (case array_read (getNeighbors nlist) (2 * bond + 1) of Inl e \<Rightarrow> Inl e | Inr j \<Rightarrow>
     (case array_read (getDistances nlist) bond of Inl e \<Rightarrow> Inl e | Inr d \<Rightarrow>
     (case array_read (getWeights nlist) bond of Inl e \<Rightarrow> Inl e | Inr w \<Rightarrow>
        Inr (BondCall i j d w)))))"

function bond_loop :: "'f NeighborList \<Rightarrow> csize \<Rightarrow> csize \<Rightarrow> fault + 'f pair_call list" where
  "bond_loop nlist bond e =
     (if bond \<noteq> e then
        (case bond_call nlist bond of
           Inl err \<Rightarrow> Inl err
         | Inr c \<Rightarrow>
             (case bond_loop nlist (bond + 1) e of
                Inl err \<Rightarrow> Inl err
              | Inr cs \<Rightarrow> Inr (c # cs)))
      else Inr [])"
  by pat_completeness auto
termination
proof (relation "measure (\<lambda>(nlist, bond, e). unat (e - bond))")
  show "wf (measure (\<lambda>(nlist :: 'f NeighborList, bond :: csize, e). unat (e - bond)))"
    by simp
next
  fix nlist :: "'f NeighborList" and bond e :: csize and c :: "'f pair_call"
  assume ne: "bond \<noteq> e"
  have eq: "e - (bond + 1) = e - bond - 1" by simp
  have "e - bond \<noteq> 0" using ne by simp
  then have "unat (e - bond - 1) < unat (e - bond)"
    by (simp add: unat_minus_one unat_gt_0)
  then have "unat (e - (bond + 1)) < unat (e - bond)"
    by (simp only: eq)
  then show "((nlist, bond + 1, e), (nlist, bond, e))
      \<in> measure (\<lambda>(nlist, bond, e). unat (e - bond))"
    by simp
qed

declare bond_loop.simps [simp del]

text \<open>
  \<^verbatim>\<open>loop_over_NeighborList_parallel(nlist, cf)\<close>. The partition \<open>rs\<close> of
  \<open>[0, n_bonds)\<close> is TBB's choice; the result is the set of call sequences that can be
  observed.
\<close>

definition loop_over_NeighborList_parallel ::
  "(csize \<times> csize) list \<Rightarrow> 'f NeighborList \<Rightarrow> (fault + 'f pair_call list) set" where
  "loop_over_NeighborList_parallel rs nlist = parallel_for rs (bond_loop nlist)"

text \<open>
  \<^verbatim>\<open>for_loop_wrapper(parallel, begin, end, body)\<close>
\<close>

definition for_loop_wrapper ::
  "(csize \<times> csize) list \<Rightarrow> bool \<Rightarrow> csize \<Rightarrow> csize \<Rightarrow> (csize \<Rightarrow> csize \<Rightarrow> fault + 'c list)
     \<Rightarrow> (fault + 'c list) set" where
  "for_loop_wrapper rs parallel b e body =
     (if parallel then parallel_for rs body else {body b e})"

text \<open>
  The inner loop of the live-query mode, for query point \<open>i\<close>:
  \<^verbatim>\<open>while (!it->end()) { if (!qargs.exclude_ii || i != np.ref_id) cf(np.ref_id, i,
  np.distance, 1); np = it->next(); }\<close>
\<close>

function drain ::
  "QueryArgs \<Rightarrow> csize \<Rightarrow> 'f NeighborPoint \<Rightarrow> 'f NeighborQueryIterator \<Rightarrow> 'f pair_call list" where
  "drain qargs i np it =
     (if \<not> query_end it then
        (if \<not> exclude_ii qargs \<or> i \<noteq> ucast (ref_id np)
         then [QueryCall (ref_id np) i (distance np) 1] else [])
        @ drain qargs i (fst (query_next it)) (snd (query_next it))
      else [])"
  by pat_completeness auto
termination
  by (relation "measure (\<lambda>(qargs, i, np, it). length (pending it) + (if finished it then 0 else 1))")
    (auto simp: query_end_def query_next_def split: list.splits)

declare drain.simps [simp del]

text \<open>
  The body handed to \<^verbatim>\<open>for_loop_wrapper\<close>: \<^verbatim>\<open>for (size_t i = begin; i != end; ++i)
  { it = iter->query(i); np = it->next(); while \<dots> }\<close>. \<open>query\<close> is \<^verbatim>\<open>iter->query\<close>.
\<close>

function query_loop ::
  "QueryArgs \<Rightarrow> (csize \<Rightarrow> 'f NeighborQueryIterator) \<Rightarrow> csize \<Rightarrow> csize
     \<Rightarrow> fault + 'f pair_call list" where
  "query_loop qargs query i e =
     (if i \<noteq> e then
        (let it = query i;
             np = fst (query_next it);
             it = snd (query_next it)
         in case query_loop qargs query (i + 1) e of
              Inl err \<Rightarrow> Inl err
            | Inr cs \<Rightarrow> Inr (drain qargs i np it @ cs))
      else Inr [])"
  by pat_completeness auto
termination
proof (relation "measure (\<lambda>(qargs, query, i, e). unat (e - i))")
  show "wf (measure (\<lambda>(qargs :: QueryArgs, query :: csize \<Rightarrow> 'f NeighborQueryIterator,
      i :: csize, e). unat (e - i)))"
    by simp
next
  fix qargs :: QueryArgs and query :: "csize \<Rightarrow> 'f NeighborQueryIterator" and i e :: csize
    and x xa xb
  assume ne: "i \<noteq> e"
  have eq: "e - (i + 1) = e - i - 1" by simp
  have "e - i \<noteq> 0" using ne by simp
  then have "unat (e - i - 1) < unat (e - i)"
    by (simp add: unat_minus_one unat_gt_0)
  then have "unat (e - (i + 1)) < unat (e - i)"
    by (simp only: eq)
  then show "((qargs, query, i + 1, e), (qargs, query, i, e))
      \<in> measure (\<lambda>(qargs, query, i, e). unat (e - i))"
    by simp
qed

declare query_loop.simps [simp del]

text \<open>
  \<^verbatim>\<open>loop_over_NeighborList(ref_points, points, Np, qargs, nlist, cf)\<close>. \<open>nlist\<close> is
  \<open>None\<close> for the null pointer. \<open>ref_points\<close> is either raw points, for which the
  driver builds an \<^verbatim>\<open>AABBQuery\<close> first, or a query structure of its own; what
  \<^verbatim>\<open>queryWithArgs(points, Np, qargs)\<close> returns in each case is a parameter. \<open>rs\<close> is TBB's
  partition of the range.
\<close>

datatype ('r, 'q) ref_points = RawPoints 'r | Query 'q

definition loop_over_NeighborList ::
  "(csize \<times> csize) list \<Rightarrow> ('r \<Rightarrow> csize \<Rightarrow> 'f NeighborQueryIterator)
     \<Rightarrow> ('q \<Rightarrow> csize \<Rightarrow> 'f NeighborQueryIterator)
     \<Rightarrow> ('r, 'q) ref_points \<Rightarrow> cuint \<Rightarrow> QueryArgs \<Rightarrow> 'f NeighborList option
     \<Rightarrow> (fault + 'f pair_call list) set" where
  "loop_over_NeighborList rs aabb_queryWithArgs queryWithArgs ref_points Np qargs nlist =
     (case nlist of
        Some nl \<Rightarrow> loop_over_NeighborList_parallel rs nl
      | None \<Rightarrow>
          (let iter = (case ref_points of
                         RawPoints rp \<Rightarrow> aabb_queryWithArgs rp
                       | Query q \<Rightarrow> queryWithArgs q)
           in for_loop_wrapper rs True 0 (ucast Np) (query_loop qargs iter)))"

text \<open>
  The invocation that bond number \<open>k\<close> of a bond list stands for: its two point ids, its
  distance and its weight, as stored.
\<close>

definition stored_bond :: "'f NeighborList \<Rightarrow> nat \<Rightarrow> 'f pair_call" where
  "stored_bond nlist k =
     BondCall (m_neighbors nlist ! (2 * k)) (m_neighbors nlist ! (2 * k + 1))
       (m_distances nlist ! k) (m_weights nlist ! k)"

text \<open>
  What C7 says of one invocation in live-query mode: it is made for a reference id and a
  query index that differ when self-exclusion is on, and its weight is 1.
\<close>

definition live_call_ok :: "QueryArgs \<Rightarrow> 'f pair_call \<Rightarrow> bool" where
  "live_call_ok qargs c \<longleftrightarrow>
     (case c of
        QueryCall r i d w \<Rightarrow> w = 1 \<and> (exclude_ii qargs \<longrightarrow> unat r \<noteq> unat i)
      | BondCall i j d w \<Rightarrow> False)"

text \<open>
  Concrete inputs: a bond list of two bonds, a history of three accesses to a wrapper, and
  a live query over two points in which every query point is offered both points.
\<close>

definition two_bonds :: "int NeighborList" where
  "two_bonds = \<lparr>m_neighbors = [0, 1, 1, 0], m_distances = [10, 10], m_weights = [1, 1],
     m_num_bonds = 2\<rparr>"

definition sample_ops :: "int worker_op list" where
  "sample_ops = [Access 0, Write 0 1 5, Access 1]"

definition both_points :: "csize \<Rightarrow> int NeighborQueryIterator" where
  "both_points i =
     \<lparr>pending = [\<lparr>ref_id = 0, distance = 0\<rparr>, \<lparr>ref_id = 1, distance = 0\<rparr>],
      finished = False, terminator = \<lparr>ref_id = 0xffffffff, distance = 0\<rparr>\<rparr>"

definition exclude_self :: QueryArgs where
  "exclude_self = \<lparr>exclude_ii = True\<rparr>"

text \<open>
  A wrapper all of whose elements are null pointers and whose initialiser returns the null
  pointer: the state a default-constructed wrapper stays in until \<^verbatim>\<open>update\<close>.
\<close>

definition null_only :: "'a ETSArrayWrapper \<Rightarrow> bool" where
  "null_only w \<longleftrightarrow>
     finit (array w) = ReturnNullptr \<and> (\<forall>t. elements (array w) t \<in> {None, Some Null})"

section \<open>Proofs: IteratorCellShell\<close>

lemma sint_cint_of: "in_cint a \<Longrightarrow> sint (cint_of a) = a"
  unfolding cint_of_def in_cint_def
  by (simp add: sint_sbintrunc' signed_take_bit_int_eq_self)

lemma sle_cint_of: "in_cint a \<Longrightarrow> in_cint b \<Longrightarrow> word_sle (cint_of a) (cint_of b) = (a \<le> b)"
  by (simp add: word_sle_eq sint_cint_of)

lemma sless_cint_of: "in_cint a \<Longrightarrow> in_cint b \<Longrightarrow> word_sless (cint_of a) (cint_of b) = (a < b)"
  by (simp add: word_sless_alt sint_cint_of)

lemma cint_of_arith:
  "cint_of a + cint_of b = cint_of (a + b)" "cint_of a - cint_of b = cint_of (a - b)" "cint_of a * cint_of b = cint_of (a * b)" "- cint_of a = cint_of (- a)"
  "cint_of a + 1 = cint_of (a + 1)" "cint_of a - 1 = cint_of (a - 1)" "1 - cint_of a = cint_of (1 - a)" "2 * cint_of a = cint_of (2 * a)"
  "1 + cint_of a = cint_of (1 + a)"
  by (simp_all add: cint_of_def)

lemma cint_of_eq: "in_cint a \<Longrightarrow> in_cint b \<Longrightarrow> (cint_of a = cint_of b) = (a = b)"
  by (metis sint_cint_of)

lemma cint_of_eq_0: "in_cint a \<Longrightarrow> (cint_of a = 0) = (a = 0)"
  using cint_of_eq [of a 0] by (simp add: cint_of_def in_cint_def)

lemmas step_simps = incr_def incr_stage0_def incr_stage1_def incr_stage2_def incr_stage3_def
  incr_default_def carry_z_def reset_def shell_state_def cint_of_arith sle_cint_of sless_cint_of cint_of_eq_0 in_cint_def

lemma incr0_step: "0 < N \<Longrightarrow> N < 2 ^ 30 \<Longrightarrow> - N \<le> x \<Longrightarrow> x + 1 < N \<Longrightarrow> - N \<le> z \<Longrightarrow> z < N \<Longrightarrow>
    incr (shell_state N 0 x y z d) = shell_state N 0 (x + 1) y z d"
  by (cases d) (simp_all add: step_simps)

lemma incr0_carry: "0 < N \<Longrightarrow> N < 2 ^ 30 \<Longrightarrow> - N \<le> z \<Longrightarrow> z + 1 < N \<Longrightarrow>
    incr (shell_state N 0 (N - 1) y z False) = shell_state N 0 (- N) y (z + 1) False"
  by (simp add: step_simps)

lemma incr0_last: "0 < N \<Longrightarrow> N < 2 ^ 30 \<Longrightarrow>
    incr (shell_state N 0 (N - 1) y (N - 1) False) = shell_state N (Suc 0) N y (1 - N) False"
  by (simp add: step_simps)

lemma incr0_last_2D: "0 < N \<Longrightarrow> N < 2 ^ 30 \<Longrightarrow>
    incr (shell_state N 0 (N - 1) y z True) = shell_state N (Suc 0) N y z True"
  by (simp add: step_simps)

lemma incr1_step: "0 < N \<Longrightarrow> N < 2 ^ 30 \<Longrightarrow> 1 - N < y \<Longrightarrow> y \<le> N \<Longrightarrow> - N \<le> z \<Longrightarrow> z < N \<Longrightarrow>
    incr (shell_state N (Suc 0) x y z d) = shell_state N (Suc 0) x (y - 1) z d"
  by (cases d) (simp_all add: step_simps)

lemma incr1_carry: "0 < N \<Longrightarrow> N < 2 ^ 30 \<Longrightarrow> - N \<le> z \<Longrightarrow> z + 1 < N \<Longrightarrow>
    incr (shell_state N (Suc 0) x (1 - N) z False) = shell_state N (Suc 0) x N (z + 1) False"
  by (simp add: step_simps)

lemma incr1_last: "0 < N \<Longrightarrow> N < 2 ^ 30 \<Longrightarrow>
    incr (shell_state N (Suc 0) x (1 - N) (N - 1) False) = shell_state N 2 x (- N) (1 - N) False"
  by (simp add: step_simps)

lemma incr1_last_2D: "0 < N \<Longrightarrow> N < 2 ^ 30 \<Longrightarrow>
    incr (shell_state N (Suc 0) x (1 - N) z True) = shell_state N 2 x (- N) z True"
  by (simp add: step_simps)

lemma incr2_step: "0 < N \<Longrightarrow> N < 2 ^ 30 \<Longrightarrow> 1 - N < x \<Longrightarrow> x \<le> N \<Longrightarrow> - N \<le> z \<Longrightarrow> z < N \<Longrightarrow>
    incr (shell_state N 2 x y z d) = shell_state N 2 (x - 1) y z d"
  by (cases d) (simp_all add: step_simps)

lemma incr2_carry: "0 < N \<Longrightarrow> N < 2 ^ 30 \<Longrightarrow> - N \<le> z \<Longrightarrow> z + 1 < N \<Longrightarrow>
    incr (shell_state N 2 (1 - N) y z False) = shell_state N 2 N y (z + 1) False"
  by (simp add: step_simps)

lemma incr2_last: "0 < N \<Longrightarrow> N < 2 ^ 30 \<Longrightarrow>
    incr (shell_state N 2 (1 - N) y (N - 1) False) = shell_state N 3 (- N) y (1 - N) False"
  by (simp add: step_simps)

lemma incr2_last_2D: "0 < N \<Longrightarrow> N < 2 ^ 30 \<Longrightarrow>
    incr (shell_state N 2 (1 - N) y z True) = shell_state N 3 (- N) y z True"
  by (simp add: step_simps)

lemma incr3_step: "0 < N \<Longrightarrow> N < 2 ^ 30 \<Longrightarrow> - N \<le> y \<Longrightarrow> y + 1 < N \<Longrightarrow> - N \<le> z \<Longrightarrow> z < N \<Longrightarrow>
    incr (shell_state N 3 x y z d) = shell_state N 3 x (y + 1) z d"
  by (cases d) (simp_all add: step_simps)

lemma incr3_carry: "0 < N \<Longrightarrow> N < 2 ^ 30 \<Longrightarrow> - N \<le> z \<Longrightarrow> z + 1 < N \<Longrightarrow>
    incr (shell_state N 3 x (N - 1) z False) = shell_state N 3 x (- N) (z + 1) False"
  by (simp add: step_simps)

lemma incr3_last: "0 < N \<Longrightarrow> N < 2 ^ 30 \<Longrightarrow>
    incr (shell_state N 3 x (N - 1) (N - 1) False) = shell_state N 4 (- N) (- N) (- N) False"
  by (simp add: step_simps)

lemma incr3_last_2D: "0 < N \<Longrightarrow> N < 2 ^ 30 \<Longrightarrow>
    incr (shell_state N 3 x (N - 1) 0 True) = shell_state (N + 1) 0 (- (N + 1)) (N + 1) 0 True"
  by (simp add: step_simps)

lemma incr_cap_step: "0 < N \<Longrightarrow> N < 2 ^ 30 \<Longrightarrow> - N \<le> x \<Longrightarrow> x < N \<Longrightarrow> - N \<le> y \<Longrightarrow> y \<le> N \<Longrightarrow> 4 \<le> st \<Longrightarrow>
    incr (shell_state N st x y z d) = shell_state N st (x + 1) y z d"
  by (cases d) (simp_all add: step_simps)

lemma incr_cap_carry: "0 < N \<Longrightarrow> N < 2 ^ 30 \<Longrightarrow> - N \<le> y \<Longrightarrow> y < N \<Longrightarrow> 4 \<le> st \<Longrightarrow>
    incr (shell_state N st N y z d) = shell_state N st (- N) (y + 1) z d"
  by (cases d) (simp_all add: step_simps)

lemma incr4_last: "0 < N \<Longrightarrow> N < 2 ^ 30 \<Longrightarrow>
    incr (shell_state N 4 N N z d) = shell_state N 5 (- N) (- N) N d"
  by (cases d) (simp_all add: step_simps)

lemma incr5_last: "0 < N \<Longrightarrow> N < 2 ^ 30 \<Longrightarrow>
    incr (shell_state N 5 N N z False) = shell_state (N + 1) 0 (- (N + 1)) (N + 1) (- N) False"
  by (simp add: step_simps)

lemma incr_shell0: "incr (shell_state 0 5 0 0 0 d) = shell_state 1 0 (- 1) 1 0 d"
  by (cases d) (simp_all add: step_simps)

lemma new_shell_state: "0 \<le> N \<Longrightarrow> N \<le> 2 ^ 30 \<Longrightarrow> IteratorCellShell_new (cint_of N) d =
   (if N = 0 then shell_state 0 5 0 0 0 d else shell_state N 0 (- N) N (if d then 0 else 1 - N) d)"
  by (cases d) (simp_all add: IteratorCellShell_new_def step_simps)

lemma path_append: "path s tr1 m \<Longrightarrow> path m tr2 t \<Longrightarrow> path s (tr1 @ tr2) t"
  by (induction rule: path.induct) (auto intro: path.intros)

lemma path_upto:
  assumes step: "\<And>i. a \<le> i \<Longrightarrow> i < b \<Longrightarrow> incr (f i) = f (i + 1)"
    and last: "incr (f b) = t" and le: "a \<le> b"
  shows "path (f a) (map f [a..b]) t"
  using le step
proof (induction "nat (b - a)" arbitrary: a)
  case 0
  then have "a = b" by simp
  then show ?case using last by (simp add: path.intros)
next
  case (Suc k)
  then have lt: "a < b" by linarith
  have "path (f (a + 1)) (map f [a + 1..b]) t"
    using Suc.hyps(2) lt Suc.prems(2) by (intro Suc.hyps(1)) auto
  moreover have "incr (f a) = f (a + 1)" using Suc.prems(2) lt by simp
  moreover have "[a..b] = a # [a + 1..b]" using lt by (simp add: upto_rec1)
  ultimately show ?case by (simp add: path.intros)
qed

lemma path_rows:
  assumes row: "\<And>j. a \<le> j \<Longrightarrow> j < b \<Longrightarrow> path (g j) (R j) (g (j + 1))"
    and last: "path (g b) (R b) t" and le: "a \<le> b"
  shows "path (g a) (concat (map R [a..b])) t"
  using le row
proof (induction "nat (b - a)" arbitrary: a)
  case 0
  then have "a = b" by simp
  then show ?case using last by simp
next
  case (Suc k)
  then have lt: "a < b" by linarith
  have "path (g (a + 1)) (concat (map R [a + 1..b])) t"
    using Suc.hyps(2) lt Suc.prems(2) by (intro Suc.hyps(1)) auto
  moreover have "path (g a) (R a) (g (a + 1))" using Suc.prems(2) lt by simp
  moreover have "[a..b] = a # [a + 1..b]" using lt by (simp add: upto_rec1)
  ultimately show ?case by (simp add: path_append)
qed

lemma op_eq_iff: "op_eq s t \<longleftrightarrow> s = t"
  by (cases s; cases t) (auto simp: op_eq_def)

lemma shell_loop_path:
  "path s tr t \<Longrightarrow> target \<notin> set tr \<Longrightarrow>
   shell_loop s target acc = shell_loop t target (acc @ map deref tr)"
proof (induction arbitrary: acc rule: path.induct)
  case (path_Nil s)
  show ?case by simp
next
  case (path_Cons s tr t)
  from path_Cons.prems have ne: "op_neq s target"
    by (auto simp: op_neq_def op_eq_iff)
  have "shell_loop s target acc = shell_loop (incr s) target (acc @ [deref s])"
    using ne by (subst shell_loop.simps) simp
  also have "\<dots> = shell_loop t target ((acc @ [deref s]) @ map deref tr)"
    using path_Cons.prems by (intro path_Cons.IH) simp
  finally show ?case by simp
qed

lemma shell_loop_done: "shell_loop t t acc = Some acc"
  by (subst shell_loop.simps) (simp add: op_neq_def op_eq_iff)

lemma path_grid:
  assumes inner: "\<And>i j. a \<le> i \<Longrightarrow> i < b \<Longrightarrow> c \<le> j \<Longrightarrow> j \<le> d \<Longrightarrow> incr (f i j) = f (i + 1) j"
    and carry: "\<And>j. c \<le> j \<Longrightarrow> j < d \<Longrightarrow> incr (f b j) = f a (j + 1)"
    and last: "incr (f b d) = t" and le: "a \<le> b" "c \<le> d"
  shows "path (f a c) (grid f [a..b] [c..d]) t"
  unfolding grid_def
proof (rule path_rows [where g = "\<lambda>j. f a j"])
  fix j assume j: "c \<le> j" "j < d"
  show "path (f a j) (map (\<lambda>i. f i j) [a..b]) (f a (j + 1))"
    using j le by (intro path_upto [where f = "\<lambda>i. f i j"]) (auto simp: inner carry)
next
  show "path (f a d) (map (\<lambda>i. f i d) [a..b]) t"
    using le by (intro path_upto [where f = "\<lambda>i. f i d"]) (auto simp: inner last)
qed (rule le)

lemma set_grid: "set (grid f xs ys) = {f i j | i j. i \<in> set xs \<and> j \<in> set ys}"
  by (auto simp: grid_def)

lemma distinct_grid:
  assumes "distinct xs" "distinct ys"
    and "\<And>i j i' j'. i \<in> set xs \<Longrightarrow> i' \<in> set xs \<Longrightarrow> j \<in> set ys \<Longrightarrow> j' \<in> set ys \<Longrightarrow> f i j = f i' j' \<Longrightarrow> i = i' \<and> j = j'"
  shows "distinct (grid f xs ys)"
proof -
  have eq: "grid f xs ys = map (\<lambda>(j, i). f i j) (List.product ys xs)"
    by (simp add: grid_def List.product_concat_map map_concat o_def)
  have "inj_on (\<lambda>(j, i). f i j) (set (List.product ys xs))"
    using assms(3) by (auto simp: inj_on_def)
  then show ?thesis
    unfolding eq using assms(1,2) by (simp add: distinct_map distinct_product)
qed

lemma map_grid: "map h (grid f xs ys) = grid (\<lambda>i j. h (f i j)) xs ys"
  by (simp add: grid_def map_concat o_def)

lemma path_trace3:
  assumes N: "0 < N" "N < 2 ^ 30"
  shows "path (shell_state N 0 (- N) N (1 - N) False) (trace3 N)
           (shell_state (N + 1) 0 (- (N + 1)) (N + 1) (- N) False)"
proof -
  have w0: "path (shell_state N 0 (- N) N (1 - N) False)
      (grid (\<lambda>x z. shell_state N 0 x N z False) [- N..N - 1] [1 - N..N - 1]) (shell_state N (Suc 0) N N (1 - N) False)"
    using N by (intro path_grid) (simp_all add: incr0_step incr0_carry incr0_last)
  have w1: "path (shell_state N (Suc 0) N N (1 - N) False)
      (grid (\<lambda>i z. shell_state N (Suc 0) N (- i) z False) [- N..N - 1] [1 - N..N - 1]) (shell_state N 2 N (- N) (1 - N) False)"
    using N path_grid [where f = "\<lambda>i z. shell_state N (Suc 0) N (- i) z False" and a = "- N" and b = "N - 1"
        and c = "1 - N" and d = "N - 1" and t = "shell_state N 2 N (- N) (1 - N) False"]
    by (simp add: incr1_step incr1_carry incr1_last)
  have w2: "path (shell_state N 2 N (- N) (1 - N) False)
      (grid (\<lambda>i z. shell_state N 2 (- i) (- N) z False) [- N..N - 1] [1 - N..N - 1]) (shell_state N 3 (- N) (- N) (1 - N) False)"
    using N path_grid [where f = "\<lambda>i z. shell_state N 2 (- i) (- N) z False" and a = "- N" and b = "N - 1"
        and c = "1 - N" and d = "N - 1" and t = "shell_state N 3 (- N) (- N) (1 - N) False"]
    by (simp add: incr2_step incr2_carry incr2_last)
  have w3: "path (shell_state N 3 (- N) (- N) (1 - N) False)
      (grid (\<lambda>y z. shell_state N 3 (- N) y z False) [- N..N - 1] [1 - N..N - 1]) (shell_state N 4 (- N) (- N) (- N) False)"
    using N by (intro path_grid) (simp_all add: incr3_step incr3_carry incr3_last)
  have c4: "path (shell_state N 4 (- N) (- N) (- N) False)
      (grid (\<lambda>x y. shell_state N 4 x y (- N) False) [- N..N] [- N..N]) (shell_state N 5 (- N) (- N) N False)"
    using N by (intro path_grid) (simp_all add: incr_cap_step incr_cap_carry incr4_last)
  have c5: "path (shell_state N 5 (- N) (- N) N False)
      (grid (\<lambda>x y. shell_state N 5 x y N False) [- N..N] [- N..N]) (shell_state (N + 1) 0 (- (N + 1)) (N + 1) (- N) False)"
    using N by (intro path_grid) (simp_all add: incr_cap_step incr_cap_carry incr5_last)
  show ?thesis
    unfolding trace3_def
    by (intro path_append [OF w0] path_append [OF w1] path_append [OF w2]
        path_append [OF w3] path_append [OF c4] c5)
qed

lemma path_trace2:
  assumes N: "0 < N" "N < 2 ^ 30"
  shows "path (shell_state N 0 (- N) N 0 True) (trace2 N) (shell_state (N + 1) 0 (- (N + 1)) (N + 1) 0 True)"
proof -
  have r0: "path (shell_state N 0 (- N) N 0 True) (map (\<lambda>x. shell_state N 0 x N 0 True) [- N..N - 1])
      (shell_state N (Suc 0) N N 0 True)"
    using N by (intro path_upto) (simp_all add: incr0_step incr0_last_2D)
  have r1: "path (shell_state N (Suc 0) N N 0 True) (map (\<lambda>i. shell_state N (Suc 0) N (- i) 0 True) [- N..N - 1])
      (shell_state N 2 N (- N) 0 True)"
    using N path_upto [where f = "\<lambda>i. shell_state N (Suc 0) N (- i) 0 True" and a = "- N" and b = "N - 1"
        and t = "shell_state N 2 N (- N) 0 True"]
    by (simp add: incr1_step incr1_last_2D)
  have r2: "path (shell_state N 2 N (- N) 0 True) (map (\<lambda>i. shell_state N 2 (- i) (- N) 0 True) [- N..N - 1])
      (shell_state N 3 (- N) (- N) 0 True)"
    using N path_upto [where f = "\<lambda>i. shell_state N 2 (- i) (- N) 0 True" and a = "- N" and b = "N - 1"
        and t = "shell_state N 3 (- N) (- N) 0 True"]
    by (simp add: incr2_step incr2_last_2D)
  have r3: "path (shell_state N 3 (- N) (- N) 0 True) (map (\<lambda>y. shell_state N 3 (- N) y 0 True) [- N..N - 1])
      (shell_state (N + 1) 0 (- (N + 1)) (N + 1) 0 True)"
    using N by (intro path_upto) (simp_all add: incr3_step incr3_last_2D)
  show ?thesis
    unfolding trace2_def
    by (intro path_append [OF r0] path_append [OF r1] path_append [OF r2] r3)
qed

lemma grid_cong:
  "(\<And>i j. i \<in> set xs \<Longrightarrow> j \<in> set ys \<Longrightarrow> f i j = g i j) \<Longrightarrow> grid f xs ys = grid g xs ys"
  unfolding grid_def by (intro arg_cong [where f = concat] map_cong) auto

lemma sint3_deref_shell_state:
  "in_cint x \<Longrightarrow> in_cint y \<Longrightarrow> in_cint z \<Longrightarrow> sint3 (deref (shell_state N st x y z d)) = (x, y, z)"
  by (simp add: sint3_def deref_def shell_state_def sint_cint_of)

lemma offs_trace3:
  assumes "0 < N" "N < 2 ^ 30"
  shows "map sint3 (map deref (trace3 N)) = offs3 N"
  unfolding trace3_def offs3_def map_append map_grid
  using assms
  by (intro arg_cong2 [where f = append] grid_cong refl sint3_deref_shell_state) (auto simp: in_cint_def)

lemma offs_trace2:
  assumes "0 < N" "N < 2 ^ 30"
  shows "map sint3 (map deref (trace2 N)) = offs2 N"
  unfolding trace2_def offs2_def map_append map_map o_def
  using assms
  by (intro arg_cong2 [where f = append] map_cong refl sint3_deref_shell_state) (auto simp: in_cint_def)

lemma in_offs3:
  "(x, y, z) \<in> set (offs3 N) \<longleftrightarrow>
     (1 - N \<le> z \<and> z \<le> N - 1 \<and>
        (y = N \<and> - N \<le> x \<and> x \<le> N - 1 \<or> x = N \<and> 1 - N \<le> y \<and> y \<le> N \<or>
         y = - N \<and> 1 - N \<le> x \<and> x \<le> N \<or> x = - N \<and> - N \<le> y \<and> y \<le> N - 1))
     \<or> (z = - N \<or> z = N) \<and> - N \<le> x \<and> x \<le> N \<and> - N \<le> y \<and> y \<le> N"
  (is "?L \<longleftrightarrow> ?R")
proof
  assume ?L then show ?R
    by (auto simp: offs3_def set_grid)
next
  assume ?R
  then consider
      (a) "1 - N \<le> z" "z \<le> N - 1" "y = N" "- N \<le> x" "x \<le> N - 1"
    | (b) "1 - N \<le> z" "z \<le> N - 1" "x = N" "- N \<le> - y" "- y \<le> N - 1"
    | (c) "1 - N \<le> z" "z \<le> N - 1" "y = - N" "- N \<le> - x" "- x \<le> N - 1"
    | (d) "1 - N \<le> z" "z \<le> N - 1" "x = - N" "- N \<le> y" "y \<le> N - 1"
    | (e) "z = - N" "- N \<le> x" "x \<le> N" "- N \<le> y" "y \<le> N"
    | (f) "z = N" "- N \<le> x" "x \<le> N" "- N \<le> y" "y \<le> N"
    by auto
  then show ?L
  proof cases
    case a then show ?thesis by (simp add: offs3_def set_grid)
  next
    case b
    then have "(x, y, z) \<in> set (grid (\<lambda>i z. (N, - i, z)) [- N..N - 1] [1 - N..N - 1])"
      unfolding set_grid by (intro CollectI exI [of _ "- y"] exI [of _ z]) simp
    then show ?thesis by (simp add: offs3_def)
  next
    case c
    then have "(x, y, z) \<in> set (grid (\<lambda>i z. (- i, - N, z)) [- N..N - 1] [1 - N..N - 1])"
      unfolding set_grid by (intro CollectI exI [of _ "- x"] exI [of _ z]) simp
    then show ?thesis by (simp add: offs3_def)
  next
    case d then show ?thesis by (simp add: offs3_def set_grid)
  next
    case e then show ?thesis by (simp add: offs3_def set_grid)
  next
    case f then show ?thesis by (simp add: offs3_def set_grid)
  qed
qed

lemma set_offs3:
  assumes "0 < N"
  shows "set (offs3 N) = cheb_shell (nat N) False"
proof -
  have "p \<in> set (offs3 N) \<longleftrightarrow> p \<in> cheb_shell (nat N) False" for p
  proof -
    obtain x y z where p: "p = (x, y, z)" by (cases p)
    show ?thesis
      unfolding p in_offs3 cheb_shell_def using assms by (simp add: max_def abs_if) arith
  qed
  then show ?thesis by blast
qed

lemma in_offs2:
  "(x, y, z) \<in> set (offs2 N) \<longleftrightarrow>
     z = 0 \<and>
        (y = N \<and> - N \<le> x \<and> x \<le> N - 1 \<or> x = N \<and> 1 - N \<le> y \<and> y \<le> N \<or>
         y = - N \<and> 1 - N \<le> x \<and> x \<le> N \<or> x = - N \<and> - N \<le> y \<and> y \<le> N - 1)"
  (is "?L \<longleftrightarrow> ?R")
proof
  assume ?L then show ?R
    by (auto simp: offs2_def)
next
  assume ?R
  then consider
      (a) "z = 0" "y = N" "- N \<le> x" "x \<le> N - 1"
    | (b) "z = 0" "x = N" "- N \<le> - y" "- y \<le> N - 1"
    | (c) "z = 0" "y = - N" "- N \<le> - x" "- x \<le> N - 1"
    | (d) "z = 0" "x = - N" "- N \<le> y" "y \<le> N - 1"
    by auto
  then show ?L
  proof cases
    case a then show ?thesis by (simp add: offs2_def)
  next
    case b
    then have "(x, y, z) \<in> (\<lambda>i. (N, - i, 0)) ` {- N..N - 1}"
      by (intro image_eqI [of _ _ "- y"]) simp_all
    then show ?thesis by (simp add: offs2_def)
  next
    case c
    then have "(x, y, z) \<in> (\<lambda>i. (- i, - N, 0)) ` {- N..N - 1}"
      by (intro image_eqI [of _ _ "- x"]) simp_all
    then show ?thesis by (simp add: offs2_def)
  next
    case d then show ?thesis by (simp add: offs2_def)
  qed
qed

lemma set_offs2:
  assumes "0 < N"
  shows "set (offs2 N) = cheb_shell (nat N) True"
proof -
  have "p \<in> set (offs2 N) \<longleftrightarrow> p \<in> cheb_shell (nat N) True" for p
  proof -
    obtain x y z where p: "p = (x, y, z)" by (cases p)
    show ?thesis
      unfolding p in_offs2 cheb_shell_def using assms by (simp add: max_def abs_if) arith
  qed
  then show ?thesis by blast
qed

lemma distinct_offs2:
  assumes "0 < N"
  shows "distinct (offs2 N)"
  using assms unfolding offs2_def
  by (auto simp: distinct_map inj_on_def)

lemma distinct_offs3:
  assumes "0 < N"
  shows "distinct (offs3 N)"
proof -
  have d: "distinct (grid (\<lambda>x z. (x, N, z)) [- N..N - 1] [1 - N..N - 1])"
    "distinct (grid (\<lambda>i z. (N, - i, z)) [- N..N - 1] [1 - N..N - 1])"
    "distinct (grid (\<lambda>i z. (- i, - N, z)) [- N..N - 1] [1 - N..N - 1])"
    "distinct (grid (\<lambda>y z. (- N, y, z)) [- N..N - 1] [1 - N..N - 1])"
    "distinct (grid (\<lambda>x y. (x, y, - N)) [- N..N] [- N..N])"
    "distinct (grid (\<lambda>x y. (x, y, N)) [- N..N] [- N..N])"
    by (rule distinct_grid; simp)+
  show ?thesis
    unfolding offs3_def distinct_append
    using assms by (auto simp: d set_grid)
qed

lemma range_trace3: "s \<in> set (trace3 N) \<Longrightarrow> m_range s = cint_of N"
  by (auto simp: trace3_def set_grid shell_state_def)

lemma range_trace2: "s \<in> set (trace2 N) \<Longrightarrow> m_range s = cint_of N"
  by (auto simp: trace2_def shell_state_def)

lemma shell_offsets_3D:
  assumes N: "0 < N" "N < 2 ^ 30"
  shows "shell_offsets (cint_of N) False = Some (map deref (trace3 N))"
proof -
  let ?t = "shell_state (N + 1) 0 (- (N + 1)) (N + 1) (- N) False"
  have "cint_of N \<noteq> cint_of (N + 1)" using N by (simp add: cint_of_eq in_cint_def)
  then have notin: "?t \<notin> set (trace3 N)"
    using range_trace3 [of ?t N] by (auto simp: shell_state_def)
  have "shell_offsets (cint_of N) False = shell_loop (shell_state N 0 (- N) N (1 - N) False) ?t []"
    using N by (simp add: shell_offsets_def cint_of_arith new_shell_state)
  also have "\<dots> = shell_loop ?t ?t ([] @ map deref (trace3 N))"
    by (rule shell_loop_path [OF path_trace3 [OF N] notin])
  finally show ?thesis by (simp add: shell_loop_done)
qed

lemma shell_offsets_2D:
  assumes N: "0 < N" "N < 2 ^ 30"
  shows "shell_offsets (cint_of N) True = Some (map deref (trace2 N))"
proof -
  let ?t = "shell_state (N + 1) 0 (- (N + 1)) (N + 1) 0 True"
  have "cint_of N \<noteq> cint_of (N + 1)" using N by (simp add: cint_of_eq in_cint_def)
  then have notin: "?t \<notin> set (trace2 N)"
    using range_trace2 [of ?t N] by (auto simp: shell_state_def)
  have "shell_offsets (cint_of N) True = shell_loop (shell_state N 0 (- N) N 0 True) ?t []"
    using N by (simp add: shell_offsets_def cint_of_arith new_shell_state)
  also have "\<dots> = shell_loop ?t ?t ([] @ map deref (trace2 N))"
    by (rule shell_loop_path [OF path_trace2 [OF N] notin])
  finally show ?thesis by (simp add: shell_loop_done)
qed

lemma shell_offsets_0: "shell_offsets 0 d = Some [(0, 0, 0)]"
proof -
  have n0: "IteratorCellShell_new 0 d = shell_state 0 5 0 0 0 d"
    using new_shell_state [of 0 d] by (simp add: cint_of_def)
  have n1: "IteratorCellShell_new 1 d = shell_state 1 0 (- 1) 1 0 d"
    using new_shell_state [of 1 d] by (simp add: cint_of_def)
  have ne: "shell_state 0 5 0 0 0 d \<noteq> shell_state 1 0 (- 1) 1 0 d" by (simp add: shell_state_def)
  have "path (shell_state 0 5 0 0 0 d) [shell_state 0 5 0 0 0 d] (shell_state 1 0 (- 1) 1 0 d)"
    by (intro path.intros(2)) (simp add: incr_shell0 path.intros(1))
  from shell_loop_path [OF this, of "shell_state 1 0 (- 1) 1 0 d" "[]"] ne
  show ?thesis
    by (simp add: shell_offsets_def n0 n1 shell_loop_done deref_def shell_state_def cint_of_def)
qed

lemma cheb_shell_0: "cheb_shell 0 d = {(0, 0, 0)}"
  by (auto simp: cheb_shell_def)

lemma shell_offsets_max: "shell_offsets 4294967295 False =
   Some [(1, - 1, 2), (- 1, - 1, 6), (- 1, 1, 10), (1, 1, 14), (1, 1, 1), (3, 3, - 1)]"
  by code_simp

text \<open>
  C1, as amended. For every range \<open>N\<close> below \<open>2 ^ 30\<close> (the ranges on which none of the
  iterator's \<^verbatim>\<open>int\<close> computations overflows) and both dimensionality flags, advancing
  from the initial state of shell \<open>N\<close> until the iterator first equals the initial state of
  shell \<open>N + 1\<close> ends, and the offsets visited are exactly the offsets at Chebyshev
  distance \<open>N\<close> from the origin, each once; in two dimensions every one of them has
  \<open>dz = 0\<close>, and for \<open>N = 0\<close> the set is the single offset \<open>(0, 0, 0)\<close>.
\<close>

theorem shell_enumeration:
  assumes "N < 2 ^ 30"
  shows "shell_claim N is2D"
proof (cases "N = 0")
  case True
  then show ?thesis
    by (simp add: shell_claim_def shell_offsets_0 cheb_shell_0 sint3_def)
next
  case False
  then have N: "0 < int N" "int N < 2 ^ 30" using assms by simp_all
  have w: "(of_nat N :: cuint) = cint_of (int N)" by (simp add: cint_of_def)
  show ?thesis
  proof (cases is2D)
    case True
    have "shell_offsets (of_nat N) is2D = Some (map deref (trace2 (int N)))"
      using shell_offsets_2D [OF N] True w by simp
    moreover have "distinct (map sint3 (map deref (trace2 (int N))))"
      using offs_trace2 [OF N] distinct_offs2 [OF N(1)] by simp
    moreover have "set (map sint3 (map deref (trace2 (int N)))) = cheb_shell N is2D"
      using offs_trace2 [OF N] set_offs2 [OF N(1)] True by simp
    ultimately show ?thesis
      unfolding shell_claim_def by blast
  next
    case False
    have "shell_offsets (of_nat N) is2D = Some (map deref (trace3 (int N)))"
      using shell_offsets_3D [OF N] False w by simp
    moreover have "distinct (map sint3 (map deref (trace3 (int N))))"
      using offs_trace3 [OF N] distinct_offs3 [OF N(1)] by simp
    moreover have "set (map sint3 (map deref (trace3 (int N)))) = cheb_shell N is2D"
      using offs_trace3 [OF N] set_offs3 [OF N(1)] False by simp
    ultimately show ?thesis
      unfolding shell_claim_def by blast
  qed
qed

theorem shell_enumeration_witness: "(1::nat) < 2 ^ 30 \<and> shell_claim 1 False"
  using shell_enumeration [of 1 False] by simp



text \<open>
  C1 as stated, for every range the constructor accepts, fails at the largest
  \<^verbatim>\<open>unsigned int\<close>: \<^verbatim>\<open>m_range\<close> becomes \<open>-1\<close>, the loop ends after six offsets, and
  the first of them, \<open>(1, -1, 2)\<close>, is at Chebyshev distance 2.
\<close>

theorem shell_enumeration_counterexample: "\<not> shell_claim 4294967295 False"
proof
  assume "shell_claim 4294967295 False"
  then have "set (map sint3 [(1, - 1, 2), (- 1, - 1, 6), (- 1, 1, 10), (1, 1, 14), (1, 1, 1), (3, 3, - 1)])
      = cheb_shell 4294967295 False"
    by (simp add: shell_claim_def shell_offsets_max)
  moreover have "(1, - 1, 2) \<in> set (map sint3 [(1, - 1, 2), (- 1, - 1, 6), (- 1, 1, 10), (1, 1, 14), (1, 1, 1), (3, 3, - 1)])"
    by (simp add: sint3_def)
  ultimately have "(1, - 1, 2) \<in> cheb_shell 4294967295 False"
    by (rule subst)
  then show False
    by (simp add: cheb_shell_def)
qed

subsection \<open>Equality and advancing\<close>

lemmas incr_defs = incr_def incr_stage0_def incr_stage1_def incr_stage2_def incr_stage3_def
  incr_default_def carry_z_def reset_def

lemma stage5_inv_new: "stage5_inv (IteratorCellShell_new rng d)"
  by (simp add: stage5_inv_def IteratorCellShell_new_def reset_def Let_def)

lemma stage5_inv_incr: "stage5_inv s \<Longrightarrow> stage5_inv (incr s)"
  by (auto simp: stage5_inv_def incr_defs Let_def split: if_splits)

lemma stage5_inv_funpow: "stage5_inv ((incr ^^ n) (IteratorCellShell_new rng d))"
  by (induction n) (simp_all add: stage5_inv_new stage5_inv_incr)

lemma incr_changes:
  assumes "stage5_inv s"
  shows "deref (incr s) \<noteq> deref s \<or> m_stage (incr s) \<noteq> m_stage s"
  using assms
  by (auto simp: stage5_inv_def incr_defs deref_def Let_def split: if_splits)


text \<open>
  C8. Two iterators compare equal exactly when range, stage, coordinate and dimensionality
  flag agree; an iterator constructed from any arguments and advanced any number of times
  equals another one constructed and advanced the same way; and one more advance changes
  its coordinate or its stage, so that it differs from its state before the advance.
\<close>

theorem shell_iterator_equality:
  "(op_eq s t \<longleftrightarrow>
      m_range s = m_range t \<and> m_stage s = m_stage t \<and> deref s = deref t \<and> m_is2D s = m_is2D t)
   \<and> op_eq ((incr ^^ n) (IteratorCellShell_new rng d)) ((incr ^^ n) (IteratorCellShell_new rng d))
   \<and> (let it = (incr ^^ n) (IteratorCellShell_new rng d)
      in (deref (incr it), m_stage (incr it)) \<noteq> (deref it, m_stage it)
         \<and> op_neq (incr it) it)"
proof -
  let ?it = "(incr ^^ n) (IteratorCellShell_new rng d)"
  have a: "op_eq s t \<longleftrightarrow>
      m_range s = m_range t \<and> m_stage s = m_stage t \<and> deref s = deref t \<and> m_is2D s = m_is2D t"
    by (auto simp: op_eq_def deref_def)
  have b: "op_eq ?it ?it" by (simp add: op_eq_iff)
  have c: "deref (incr ?it) \<noteq> deref ?it \<or> m_stage (incr ?it) \<noteq> m_stage ?it"
    by (rule incr_changes [OF stage5_inv_funpow])
  then have "incr ?it \<noteq> ?it" by auto
  then have e: "op_neq (incr ?it) ?it" by (simp add: op_neq_def op_eq_iff)
  have c': "(deref (incr ?it), m_stage (incr ?it)) \<noteq> (deref ?it, m_stage ?it)"
    using c by auto
  show ?thesis using a b c' e by (simp only: Let_def) blast
qed

section \<open>Proofs: LinkCell\<close>

subsection \<open>getCellIndex\<close>
















text \<open>
  C3 as stated, for every grid with counts of at least 1, fails on a grid of
  \<open>0xffffffff\<close> by 1 by 1 cells: the cast makes the first count \<open>-1\<close>, \<^verbatim>\<open>3 % -1\<close> is 0, and
  the coordinate \<open>(3, 0, 0)\<close>, which is in range and has the flattened id 3, gets the id
  of \<open>(0, 0, 0)\<close>.
\<close>

theorem getCellIndex_wraps_counterexample:
  "1 \<le> unat (getW (getCellIndexer wide_grid))
   \<and> 1 \<le> unat (getH (getCellIndexer wide_grid))
   \<and> 1 \<le> unat (getD (getCellIndexer wide_grid))
   \<and> unat (3 :: cint) < unat (getW (getCellIndexer wide_grid))
   \<and> getCellIndex wide_grid (3, 0, 0) = Inr 0
   \<and> Index3D_call (getCellIndexer wide_grid) 3 0 0 = 3"
proof -
  have w: "getW (getCellIndexer wide_grid) = 4294967295" "getH (getCellIndexer wide_grid) = 1"
    "getD (getCellIndexer wide_grid) = 1"
    by (simp_all add: getW_def getH_def getD_def getCellIndexer_def wide_grid_def)
  have s: "sint (4294967295 :: cint) = - 1"
    by simp
  have r: "int_rem 3 4294967295 = Inr 0"
    unfolding int_rem_def s by (simp add: signed_modulo_int_def)
  have x: "wrap_axis 3 4294967295 = Inr 0"
    by (simp add: wrap_axis_def r)
  have y: "wrap_axis 0 1 = Inr 0"
    by (simp add: wrap_axis_def int_rem_def signed_modulo_int_def)
  have g: "getCellIndex wide_grid (3, 0, 0) = Inr 0"
    by (simp add: getCellIndex_def w x y Index3D_call_def)
  have i: "Index3D_call (getCellIndexer wide_grid) 3 0 0 = 3"
    by (simp add: Index3D_call_def getCellIndexer_def wide_grid_def)
  show ?thesis
    using g i by (simp add: w)
qed

subsection \<open>The ball-query constructor and the cell iterator\<close>


text \<open>
  C4. For every ball-query iterator the extra search width is 0 when \<^verbatim>\<open>r_max ==
  getCellWidth()\<close> holds and 1 in every other case; it is never another value.
\<close>

theorem extra_search_width:
  "m_extra_search_width (LinkCellQueryBallIterator_new float_eq lc is2D idx r_max excl) =
     (if float_eq r_max (getCellWidth lc) then 0 else 1)
   \<and> m_extra_search_width (LinkCellQueryBallIterator_new float_eq lc is2D idx r_max excl) \<in> {0, 1}"
  by (simp add: LinkCellQueryBallIterator_new_def Let_def)

lemma next_defined_iff:
  assumes "m_cell_list it = Some cl"
  shows "(\<exists>r. next it = Inr r) \<longleftrightarrow> unat (m_cur_idx it) < length cl"
  using assms by (simp add: next_def array_read_def)

lemma next_at_end:
  assumes "m_cell_list it = Some cl" "length cl \<le> 4294967295" "atEnd it"
  shows "next it = Inl OutOfBounds"
  using assms by (simp add: next_def array_read_def atEnd_def LINK_CELL_TERMINATOR_def)

text \<open>
  C5, as amended. The end of a chain is the queryable state \<^verbatim>\<open>atEnd()\<close>, which holds
  exactly when the cursor is \<^verbatim>\<open>LINK_CELL_TERMINATOR\<close>. \<^verbatim>\<open>next()\<close> is defined exactly when
  the cursor is an index of the cell list; on a cell list of at most \<open>2^32 - 1\<close> entries
  an iterator that is at its end has no such cursor, and one more \<^verbatim>\<open>next()\<close> reads outside
  the array.
\<close>

theorem over_advance:
  assumes "m_cell_list it = Some cl" and "length cl \<le> 4294967295"
  shows "(atEnd it \<longleftrightarrow> m_cur_idx it = LINK_CELL_TERMINATOR)
    \<and> ((\<exists>r. next it = Inr r) \<longleftrightarrow> unat (m_cur_idx it) < length cl)
    \<and> (if atEnd it then next it = Inl OutOfBounds
        else unat (m_cur_idx it) < length cl \<and>
             next it = Inr (cl ! unat (m_cur_idx it), it\<lparr>m_cur_idx := cl ! unat (m_cur_idx it)\<rparr>)
           \<or> \<not> unat (m_cur_idx it) < length cl \<and> next it = Inl OutOfBounds)"
  using assms next_at_end [OF assms] next_defined_iff [OF assms(1)]
  by (auto simp: atEnd_def next_def array_read_def)

lemma chain_run:
  "IteratorLinkCell_new (Some chain_cells) 1 1 0 = Inr chain_it0"
  "next chain_it0 = Inr (0, chain_it1)"
  "\<not> atEnd chain_it1"
  "next chain_it1 = Inr (0xffffffff, chain_it2)"
  "atEnd chain_it2"
  "next chain_it2 = Inl OutOfBounds"
  by (simp_all add: IteratorLinkCell_new_def chain_it0_def chain_it1_def chain_it2_def chain_cells_def
      next_def array_read_def atEnd_def LINK_CELL_TERMINATOR_def)

text \<open>
  C5 as stated fails on the cell list of one point in one cell: the iterator over cell 0
  yields point 0, then the terminator, is at its end, and one more \<^verbatim>\<open>next()\<close> reads
  entry \<open>0xffffffff\<close> of an array of two.
\<close>

theorem over_advance_counterexample:
  "IteratorLinkCell_new (Some chain_cells) 1 1 0 = Inr chain_it0
   \<and> next chain_it0 = Inr (0, chain_it1)
   \<and> next chain_it1 = Inr (0xffffffff, chain_it2)
   \<and> atEnd chain_it2
   \<and> next chain_it2 = Inl OutOfBounds
   \<and> \<not> over_advance_defined chain_it2"
  using chain_run by (simp add: over_advance_defined_def)

theorem over_advance_witness:
  "m_cell_list chain_it2 = Some chain_cells \<and> length chain_cells \<le> 4294967295
   \<and> atEnd chain_it2 \<and> next chain_it2 = Inl OutOfBounds
   \<and> unat (m_cur_idx chain_it0) < length chain_cells \<and> next chain_it0 = Inr (0, chain_it1)"
proof -
  have h: "m_cell_list chain_it2 = Some chain_cells" "length chain_cells \<le> 4294967295"
    by (simp_all add: chain_it2_def chain_it0_def chain_cells_def)
  from over_advance [OF h] chain_run h show ?thesis
    by (simp add: chain_it0_def chain_cells_def)
qed

section \<open>Proofs: ETSArrayWrapper\<close>

lemma local_frame:
  "finit (array (snd (local t' w))) = finit (array w)"
  "m_size (snd (local t' w)) = m_size w"
  "t \<noteq> t' \<Longrightarrow> elements (array (snd (local t' w))) t = elements (array w) t"
  by (simp_all add: local_def Let_def split: option.splits)

lemma local_write_frame:
  assumes "local_write t' i v w = Inr w'"
  shows "finit (array w') = finit (array w)" "m_size w' = m_size w"
    "t \<noteq> t' \<Longrightarrow> elements (array w') t = elements (array w) t"
  using assms
  by (auto simp: local_write_def local_def Let_def split: option.splits buffer_ptr.splits if_splits)

lemma run_ops_frame:
  assumes "run_ops ops w = Inr w1"
  shows "finit (array w1) = finit (array w) \<and> m_size w1 = m_size w
     \<and> (t \<notin> worker ` set ops \<longrightarrow> elements (array w1) t = elements (array w) t)"
  using assms
proof (induction ops w rule: run_ops.induct)
  case (1 w)
  then show ?case by simp
next
  case (2 t' ops w)
  then show ?case by (simp add: local_frame)
next
  case (3 t' i v ops w)
  from "3.prems" obtain w' where w': "local_write t' i v w = Inr w'" and r: "run_ops ops w' = Inr w1"
    by (auto split: sum.splits)
  from "3.IH" [OF w' r] local_write_frame [OF w'] show ?case by auto
qed

lemma local_first:
  assumes "elements (array w) t = None" "finit (array w) = MakeNewEmptyArray"
  shows "fst (local t w) = Array (replicate (unat (m_size w)) 0)"
  using assms by (simp add: local_def run_finit_def makeNewEmptyArray_def Let_def)

lemma update_fresh:
  "elements (array (update n w0)) = Map.empty" "finit (array (update n w0)) = MakeNewEmptyArray"
  "m_size (update n w0) = n"
  by (simp_all add: update_def deleteArray_def Let_def)

lemma sized_fresh:
  "elements (array (ETSArrayWrapper_sized n)) = Map.empty"
  "finit (array (ETSArrayWrapper_sized n)) = MakeNewEmptyArray"
  "m_size (ETSArrayWrapper_sized n) = n"
  by (simp_all add: ETSArrayWrapper_sized_def)

text \<open>
  C9. After construction with a size \<open>n\<close>, or after \<^verbatim>\<open>update(n)\<close> on any wrapper, and
  after any accesses and writes by other workers, the first access by a worker yields a
  buffer of exactly \<open>n\<close> elements, all zero. \<^verbatim>\<open>update\<close> leaves no per-worker element
  behind, whatever the buffers held, so every access after it is such a first access.
\<close>

theorem ets_first_access:
  assumes "w = ETSArrayWrapper_sized n \<or> w = update n w0"
    and "run_ops ops w = Inr w1" and "t \<notin> worker ` set ops"
  shows "fst (local t w1) = Array (replicate (unat n) 0)
     \<and> buffer_read (fst (local t w1)) i = (if i < unat n then Inr 0 else Inl OutOfBounds)
     \<and> elements (array (update n w0)) = Map.empty"
proof -
  have f: "elements (array w) t = None" "finit (array w) = MakeNewEmptyArray" "m_size w = n"
    using assms(1) by (auto simp: update_fresh sized_fresh)
  from run_ops_frame [OF assms(2), of t] assms(3) f
  have "elements (array w1) t = None" "finit (array w1) = MakeNewEmptyArray" "m_size w1 = n"
    by simp_all
  then have "fst (local t w1) = Array (replicate (unat n) 0)"
    using local_first [of w1 t] by simp
  then show ?thesis
    by (simp add: buffer_read_def update_fresh)
qed

lemma null_only_local: "null_only w \<Longrightarrow> fst (local t w) = Null \<and> null_only (snd (local t w))"
proof -
  assume n: "null_only w"
  show ?thesis
  proof (cases "elements (array w) t")
    case None
    then show ?thesis
      using n by (simp add: null_only_def local_def run_finit_def Let_def)
  next
    case (Some p)
    moreover have "elements (array w) t = None \<or> elements (array w) t = Some Null"
      using n by (simp add: null_only_def)
    ultimately have "p = Null" by simp
    then show ?thesis
      using n Some by (simp add: local_def)
  qed
qed

lemma null_only_write: "null_only w \<Longrightarrow> local_write t i v w = Inl NullPointer"
  using null_only_local [of w t] by (auto simp: local_write_def split: prod.splits)

lemma null_only_run: "null_only w \<Longrightarrow> run_ops ops w = Inr w1 \<Longrightarrow> null_only w1"
proof (induction ops w rule: run_ops.induct)
  case (1 w)
  then show ?case by simp
next
  case (2 t ops w)
  then show ?case using null_only_local [of w t] by simp
next
  case (3 t i v ops w)
  then show ?case using null_only_write [of w t i v] by simp
qed

lemma null_only_default: "null_only ETSArrayWrapper_default"
  by (simp add: null_only_def ETSArrayWrapper_default_def)

text \<open>
  C10. A default-constructed wrapper, after any accesses that succeed, hands every worker
  the null pointer: reading through it or writing through it is a null-pointer access.
  Once \<^verbatim>\<open>update(n)\<close> has been called the worker gets an array of \<open>n\<close> zeros.
\<close>

theorem ets_default_null:
  assumes "run_ops ops ETSArrayWrapper_default = Inr w1"
  shows "fst (local t w1) = Null
     \<and> buffer_read (fst (local t w1)) i = Inl NullPointer
     \<and> local_write t i v w1 = Inl NullPointer
     \<and> fst (local t (update n w1)) = Array (replicate (unat n) 0)"
proof -
  have n: "null_only w1" by (rule null_only_run [OF null_only_default assms])
  then have l: "fst (local t w1) = Null" using null_only_local by blast
  have u: "fst (local t (update n w1)) = Array (replicate (unat n) 0)"
    using local_first [of "update n w1" t] by (simp add: update_fresh)
  show ?thesis using l u null_only_write [OF n] by (simp add: buffer_read_def)
qed


lemma sample_run:
  "\<not> isl (run_ops sample_ops (update 3 (ETSArrayWrapper_sized 2)))"
  by (simp add: sample_ops_def update_def deleteArray_def ETSArrayWrapper_sized_def Let_def
      local_def local_write_def run_finit_def makeNewEmptyArray_def)

theorem ets_first_access_witness:
  "\<not> isl (run_ops sample_ops (update 3 (ETSArrayWrapper_sized 2)))
   \<and> (2::nat) \<notin> worker ` set sample_ops
   \<and> fst (local 2 (projr (run_ops sample_ops (update 3 (ETSArrayWrapper_sized 2)))))
       = Array [0, 0, 0]"
proof -
  let ?w = "update 3 (ETSArrayWrapper_sized 2) :: int ETSArrayWrapper"
  have r: "run_ops sample_ops ?w = Inr (projr (run_ops sample_ops ?w))"
    using sample_run by (cases "run_ops sample_ops ?w") simp_all
  have t: "(2::nat) \<notin> worker ` set sample_ops"
    by (simp add: sample_ops_def)
  have "?w = ETSArrayWrapper_sized 3 \<or> ?w = update 3 (ETSArrayWrapper_sized 2)"
    by simp
  from ets_first_access [OF this r t, of 0]
  have "fst (local 2 (projr (run_ops sample_ops ?w))) = Array (replicate (unat (3 :: cuint)) 0)"
    by blast
  note first = this
  have "unat (3 :: cuint) = Suc (Suc (Suc 0))"
    by simp
  then have "replicate (unat (3 :: cuint)) (0 :: int) = [0, 0, 0]"
    by (simp only: replicate.simps)
  with first show ?thesis
    using sample_run t by simp
qed

lemma default_run: "\<not> isl (run_ops [Access 0, Access 1 :: int worker_op] ETSArrayWrapper_default)"
  by (simp add: ETSArrayWrapper_default_def local_def run_finit_def Let_def)

theorem ets_default_null_witness:
  "\<not> isl (run_ops [Access 0, Access 1 :: int worker_op] ETSArrayWrapper_default)
   \<and> fst (local 0 (projr (run_ops [Access 0, Access 1 :: int worker_op] ETSArrayWrapper_default)))
       = Null
   \<and> buffer_read (fst (local 0 (projr (run_ops [Access 0, Access 1 :: int worker_op]
         ETSArrayWrapper_default)))) 0 = Inl NullPointer"
proof -
  let ?r = "run_ops [Access 0, Access 1 :: int worker_op] ETSArrayWrapper_default"
  have r: "?r = Inr (projr ?r)"
    using default_run by (cases ?r) simp_all
  from ets_default_null [OF r, of 0 0 0 0] default_run show ?thesis
    by (simp add: buffer_read_def)
qed

section \<open>Proofs: the pair-compute driver\<close>

subsection \<open>Bond-list mode\<close>

lemma interleavings_mset: "t \<in> interleavings xss \<Longrightarrow> mset t = mset (concat xss)"
  by (induction xss arbitrary: t) (auto simp: mset_shuffles)

lemma shuffles_nonempty: "shuffles xs ys \<noteq> {}"
  by (induction xs ys rule: shuffles.induct) auto

lemma interleavings_nonempty: "interleavings xss \<noteq> {}"
  by (induction xss) (auto simp: shuffles_nonempty)

lemma parallel_for_ok:
  assumes "\<And>r. r \<in> set rs \<Longrightarrow> body (fst r) (snd r) = Inr (f r)"
  shows "parallel_for rs body = Inr ` interleavings (map f rs)"
proof -
  have "\<not> list_ex (\<lambda>r. isl (body (fst r) (snd r))) rs"
    using assms by (simp add: list_ex_iff)
  moreover have "map (\<lambda>r. projr (body (fst r) (snd r))) rs = map f rs"
    using assms by (intro map_cong) simp_all
  ultimately show ?thesis by (simp only: parallel_for_def if_False)
qed

lemma unat_double:
  assumes "unat (bond :: csize) < n" "2 * n < 2 ^ 64"
  shows "unat (2 * bond) = 2 * unat bond" "unat (2 * bond + 1) = 2 * unat bond + 1"
proof -
  have a: "2 * unat bond < 2 ^ 64" using assms by simp
  then show d: "unat (2 * bond) = 2 * unat bond"
    by (simp add: unat_word_ariths)
  have "2 * unat bond + 1 < 2 ^ 64" using assms by simp
  then show "unat (2 * bond + 1) = 2 * unat bond + 1"
    using d by (simp add: unat_word_ariths)
qed

lemma bond_call_ok:
  assumes "wf_nlist nlist" "unat bond < unat (m_num_bonds nlist)"
  shows "bond_call nlist bond = Inr (stored_bond nlist (unat bond))"
proof -
  have n: "2 * unat (m_num_bonds nlist) < 2 ^ 64" using assms(1) by (simp add: wf_nlist_def)
  note u = unat_double [OF assms(2) n]
  show ?thesis
    using assms u
    by (simp add: bond_call_def stored_bond_def array_read_def wf_nlist_def getNeighbors_def
        getDistances_def getWeights_def)
qed

lemma bond_loop_ok:
  "wf_nlist nlist \<Longrightarrow> b \<le> e \<Longrightarrow> unat e \<le> unat (m_num_bonds nlist) \<Longrightarrow>
     bond_loop nlist b e = Inr (map (stored_bond nlist) [unat b..<unat e])"
proof (induction nlist b e rule: bond_loop.induct)
  case (1 nlist bond e)
  show ?case
  proof (cases "bond = e")
    case True
    then show ?thesis by (subst bond_loop.simps) simp
  next
    case False
    then have lt: "bond < e" using "1.prems"(2) by simp
    then have ult: "unat bond < unat e" by (simp add: word_less_nat_alt)
    have "unat e < 2 ^ 64" using unsigned_less [of e] by simp
    then have "unat bond + unat (1 :: csize) < 2 ^ LENGTH(64)" using ult by simp
    then have s: "unat (bond + 1) = Suc (unat bond)"
      by (simp only: unat_add_lem [THEN iffD1]) simp
    have le: "bond + 1 \<le> e" using lt by (simp add: inc_le)
    have bc: "bond_call nlist bond = Inr (stored_bond nlist (unat bond))"
      using "1.prems" ult by (intro bond_call_ok) simp_all
    have "bond_loop nlist (bond + 1) e = Inr (map (stored_bond nlist) [unat (bond + 1)..<unat e])"
      using "1.IH" [OF False bc "1.prems"(1) le "1.prems"(3)] .
    then show ?thesis
      using False bc s ult by (subst bond_loop.simps) (simp add: upt_conv_Cons)
  qed
qed

lemma tiles_bounds:
  "tiles b e rs \<Longrightarrow> r \<in> set rs \<Longrightarrow> b \<le> fst r \<and> fst r \<le> snd r \<and> snd r \<le> e"
proof (induction rs arbitrary: b)
  case Nil
  then show ?case by simp
next
  case (Cons a rs)
  obtain b' e' where a: "a = (b', e')" by (cases a)
  from Cons.prems(1) a have t: "b' = b" "b \<le> e'" "e' \<le> e" "tiles e' e rs" by simp_all
  show ?case
  proof (cases "r = a")
    case True
    then show ?thesis using a t by simp
  next
    case False
    then have "r \<in> set rs" using Cons.prems(2) by simp
    from Cons.IH [OF t(4) this] t show ?thesis by auto
  qed
qed

lemma tiles_concat:
  "tiles b e rs \<Longrightarrow> concat (map (\<lambda>r. [unat (fst r)..<unat (snd r)]) rs) = [unat b..<unat e]"
proof (induction rs arbitrary: b)
  case Nil
  then show ?case by simp
next
  case (Cons a rs)
  obtain b' e' where a: "a = (b', e')" by (cases a)
  from Cons.prems a have t: "b' = b" "b \<le> e'" "e' \<le> e" "tiles e' e rs" by simp_all
  have "unat b \<le> unat e'" "unat e' \<le> unat e"
    using t by (simp_all add: word_le_nat_alt)
  then have "[unat b..<unat e] = [unat b..<unat e'] @ [unat e'..<unat e]"
    by (metis le_Suc_ex upt_add_eq_append)
  then show ?case using Cons.IH [OF t(4)] a t by simp
qed

lemma loop_parallel_ok:
  assumes wf: "wf_nlist nlist" and t: "tiles 0 (getNumBonds nlist) rs"
  shows "loop_over_NeighborList_parallel rs nlist =
     Inr ` interleavings (map (\<lambda>r. map (stored_bond nlist) [unat (fst r)..<unat (snd r)]) rs)"
  unfolding loop_over_NeighborList_parallel_def
proof (rule parallel_for_ok)
  fix r assume "r \<in> set rs"
  from tiles_bounds [OF t this]
  show "bond_loop nlist (fst r) (snd r)
      = Inr (map (stored_bond nlist) [unat (fst r)..<unat (snd r)])"
    by (intro bond_loop_ok wf) (simp_all add: getNumBonds_def word_le_nat_alt)
qed

lemma loop_parallel_mset:
  assumes wf: "wf_nlist nlist" and t: "tiles 0 (getNumBonds nlist) rs"
    and o: "out \<in> loop_over_NeighborList_parallel rs nlist"
  shows "\<exists>tr. out = Inr tr \<and>
     mset tr = image_mset (stored_bond nlist) (mset [0..<unat (getNumBonds nlist)])"
proof -
  from o obtain tr where tr: "out = Inr tr"
    "tr \<in> interleavings (map (\<lambda>r. map (stored_bond nlist) [unat (fst r)..<unat (snd r)]) rs)"
    unfolding loop_parallel_ok [OF wf t] by blast
  have "mset tr = mset (concat (map (\<lambda>r. map (stored_bond nlist) [unat (fst r)..<unat (snd r)]) rs))"
    by (rule interleavings_mset [OF tr(2)])
  also have "concat (map (\<lambda>r. map (stored_bond nlist) [unat (fst r)..<unat (snd r)]) rs)
      = map (stored_bond nlist) (concat (map (\<lambda>r. [unat (fst r)..<unat (snd r)]) rs))"
    by (simp add: map_concat o_def)
  also have "\<dots> = map (stored_bond nlist) [0..<unat (getNumBonds nlist)]"
    using tiles_concat [OF t] by simp
  finally show ?thesis using tr(1) by simp
qed


text \<open>
  C6. For every bond list whose arrays have the lengths its bond count promises, and for
  every partition of the bonds into contiguous ranges and every interleaving of the
  workers, \<^verbatim>\<open>loop_over_NeighborList_parallel\<close> runs without fault and invokes the callback
  once per stored bond, with the two ids, the distance and the weight stored for it; the
  bond list is only read. Hence two runs, over any two partitions, make the same multiset
  of invocations.
\<close>

theorem bond_list_loop:
  assumes "wf_nlist nlist" and "tiles 0 (getNumBonds nlist) rs"
    and "tiles 0 (getNumBonds nlist) rs'"
  shows "loop_over_NeighborList_parallel rs nlist \<noteq> {}
    \<and> (\<forall>out \<in> loop_over_NeighborList_parallel rs nlist. \<exists>tr. out = Inr tr \<and>
          mset tr = image_mset (stored_bond nlist) (mset [0..<unat (getNumBonds nlist)]))
    \<and> (\<forall>out \<in> loop_over_NeighborList_parallel rs nlist.
        \<forall>out' \<in> loop_over_NeighborList_parallel rs' nlist.
          mset (projr out) = mset (projr out'))"
proof -
  have ne: "loop_over_NeighborList_parallel rs nlist \<noteq> {}"
    unfolding loop_parallel_ok [OF assms(1,2)] by (simp add: interleavings_nonempty)
  have a: "\<exists>tr. out = Inr tr \<and>
      mset tr = image_mset (stored_bond nlist) (mset [0..<unat (getNumBonds nlist)])"
    if "out \<in> loop_over_NeighborList_parallel rs nlist" for out
    using that by (rule loop_parallel_mset [OF assms(1,2)])
  have b: "\<exists>tr. out = Inr tr \<and>
      mset tr = image_mset (stored_bond nlist) (mset [0..<unat (getNumBonds nlist)])"
    if "out \<in> loop_over_NeighborList_parallel rs' nlist" for out
    using that by (rule loop_parallel_mset [OF assms(1,3)])
  have c: "mset (projr out) = mset (projr out')"
    if "out \<in> loop_over_NeighborList_parallel rs nlist"
      "out' \<in> loop_over_NeighborList_parallel rs' nlist" for out out'
    using a [OF that(1)] b [OF that(2)] by auto
  show ?thesis using ne a c by blast
qed

theorem bond_list_loop_witness:
  "wf_nlist two_bonds
   \<and> tiles 0 (getNumBonds two_bonds) [(0, 1), (1, 2)]
   \<and> tiles 0 (getNumBonds two_bonds) [(0, 2)]
   \<and> Inr [BondCall 1 0 10 1, BondCall 0 1 10 1]
       \<in> loop_over_NeighborList_parallel [(0, 1), (1, 2)] two_bonds
   \<and> mset [BondCall 1 0 10 1, BondCall 0 1 10 1]
       = image_mset (stored_bond two_bonds) (mset [0..<unat (getNumBonds two_bonds)])"
proof -
  have wf: "wf_nlist two_bonds"
    by (simp add: wf_nlist_def two_bonds_def)
  have t1: "tiles 0 (getNumBonds two_bonds) [(0, 1), (1, 2)]"
    and t2: "tiles 0 (getNumBonds two_bonds) [(0, 2)]"
    by (simp_all add: getNumBonds_def two_bonds_def)
  have s: "stored_bond two_bonds 0 = BondCall 0 1 10 1"
    "stored_bond two_bonds (Suc 0) = BondCall 1 0 10 1"
    by (simp_all add: stored_bond_def two_bonds_def)
  have r: "[unat (0 :: csize)..<unat (1 :: csize)] = [0]"
    "[unat (1 :: csize)..<unat (2 :: csize)] = [Suc 0]"
    by (simp_all add: upt_conv_Cons)
  have mem: "Inr [BondCall 1 0 10 1, BondCall 0 1 10 1]
      \<in> loop_over_NeighborList_parallel [(0, 1), (1, 2)] two_bonds"
    unfolding loop_parallel_ok [OF wf t1]
    by (simp add: s upt_conv_Cons)
  from bond_list_loop [OF wf t1 t2] mem
  have "mset [BondCall 1 0 10 1, BondCall 0 1 10 1]
       = image_mset (stored_bond two_bonds) (mset [0..<unat (getNumBonds two_bonds)])"
    by blast
  then show ?thesis using wf t1 t2 mem by simp
qed

subsection \<open>Live-query mode\<close>

lemma ucast_eq_iff: "(i = (ucast (r :: cuint) :: csize)) \<longleftrightarrow> unat i = unat r"
proof -
  have "uint (ucast r :: csize) = uint r"
    by (rule uint_up_ucast) (simp add: is_up)
  then have "nat (uint (ucast r :: csize)) = nat (uint r)"
    by (rule arg_cong)
  then have u: "unat (ucast r :: csize) = unat r"
    by (simp only: unat_eq_nat_uint)
  have "(i = (ucast r :: csize)) \<longleftrightarrow> unat i = unat (ucast r :: csize)"
    by (rule word_unat_eq_iff)
  then show ?thesis
    by (simp only: u)
qed

lemma drain_unfold:
  "\<not> query_end it \<Longrightarrow>
   drain qargs i np it =
     (if \<not> exclude_ii qargs \<or> i \<noteq> ucast (ref_id np)
      then [QueryCall (ref_id np) i (distance np) 1] else [])
     @ drain qargs i (fst (query_next it)) (snd (query_next it))"
  "query_end it \<Longrightarrow> drain qargs i np it = []"
  by (subst drain.simps, simp only: if_True if_False not_False_eq_True not_True_eq_False not_not)+

lemma drain_ok: "c \<in> set (drain qargs i np it) \<Longrightarrow> live_call_ok qargs c"
proof (induction qargs i np it rule: drain.induct)
  case (1 qargs i np it)
  show ?case
  proof (cases "query_end it")
    case True
    then show ?thesis using "1.prems" by (simp only: drain_unfold(2)) simp
  next
    case False
    let ?h = "if \<not> exclude_ii qargs \<or> i \<noteq> ucast (ref_id np)
         then [QueryCall (ref_id np) i (distance np) 1] else []"
    from "1.prems" have "c \<in> set (?h @ drain qargs i (fst (query_next it)) (snd (query_next it)))"
      by (simp only: drain_unfold(1) [OF False])
    then have "c \<in> set ?h \<or> c \<in> set (drain qargs i (fst (query_next it)) (snd (query_next it)))"
      by (simp only: set_append Un_iff)
    then show ?thesis
    proof
      assume h: "c \<in> set ?h"
      show ?thesis
      proof (cases "\<not> exclude_ii qargs \<or> i \<noteq> ucast (ref_id np)")
        case True
        with h have c: "c = QueryCall (ref_id np) i (distance np) 1" by simp
        from True have "exclude_ii qargs \<longrightarrow> unat (ref_id np) \<noteq> unat i"
          by (auto simp only: ucast_eq_iff)
        then show ?thesis unfolding c live_call_ok_def by simp
      next
        case False
        with h show ?thesis by simp
      qed
    next
      assume "c \<in> set (drain qargs i (fst (query_next it)) (snd (query_next it)))"
      then show ?thesis by (rule "1.IH" [OF False])
    qed
  qed
qed

lemma query_loop_unfold:
  "i \<noteq> e \<Longrightarrow> query_loop qargs query i e =
     (case query_loop qargs query (i + 1) e of
        Inl err \<Rightarrow> Inl err
      | Inr cs \<Rightarrow> Inr (drain qargs i (fst (query_next (query i))) (snd (query_next (query i))) @ cs))"
  "query_loop qargs query e e = Inr []"
  by (subst query_loop.simps, simp add: Let_def)+

lemma query_loop_ok:
  "\<exists>cs. query_loop qargs query i e = Inr cs \<and> (\<forall>c \<in> set cs. live_call_ok qargs c)"
proof (induction qargs query i e rule: query_loop.induct)
  case (1 qargs query i e)
  show ?case
  proof (cases "i = e")
    case True
    then show ?thesis by (simp add: query_loop_unfold(2))
  next
    case False
    from "1.IH" [OF False refl refl refl]
    obtain cs where cs: "query_loop qargs query (i + 1) e = Inr cs"
      and ok: "\<forall>c \<in> set cs. live_call_ok qargs c" by blast
    let ?d = "drain qargs i (fst (query_next (query i))) (snd (query_next (query i)))"
    have "query_loop qargs query i e = Inr (?d @ cs)"
      by (simp add: query_loop_unfold(1) [OF False] cs)
    moreover have "\<forall>c \<in> set (?d @ cs). live_call_ok qargs c"
      using ok drain_ok [of _ qargs i] by auto
    ultimately show ?thesis by blast
  qed
qed

lemma interleavings_set: "t \<in> interleavings xss \<Longrightarrow> set t = \<Union> (set ` set xss)"
proof -
  assume "t \<in> interleavings xss"
  then have "mset t = mset (concat xss)" by (rule interleavings_mset)
  then have "set t = set (concat xss)" by (rule mset_eq_setD)
  then show ?thesis by simp
qed

lemma parallel_for_all:
  assumes "\<And>b e. \<exists>cs. body b e = Inr cs \<and> (\<forall>c \<in> set cs. P c)"
    and "out \<in> parallel_for rs body"
  shows "\<exists>tr. out = Inr tr \<and> (\<forall>c \<in> set tr. P c)"
proof -
  have b: "body (fst r) (snd r) = Inr (projr (body (fst r) (snd r)))" for r
    using assms(1) [of "fst r" "snd r"] by auto
  have p: "\<forall>c \<in> set (projr (body (fst r) (snd r))). P c" for r
    using assms(1) [of "fst r" "snd r"] by auto
  from assms(2) obtain tr where tr: "out = Inr tr"
    "tr \<in> interleavings (map (\<lambda>r. projr (body (fst r) (snd r))) rs)"
    unfolding parallel_for_ok [of rs body "\<lambda>r. projr (body (fst r) (snd r))", OF b] by blast
  from interleavings_set [OF tr(2)] p have "\<forall>c \<in> set tr. P c" by auto
  then show ?thesis using tr(1) by blast
qed

lemma parallel_for_nonempty:
  assumes "\<And>b e. \<exists>cs. body b e = Inr cs"
  shows "parallel_for rs body \<noteq> {}"
proof -
  have b: "body (fst r) (snd r) = Inr (projr (body (fst r) (snd r)))" for r
    using assms [of "fst r" "snd r"] by auto
  show ?thesis
    unfolding parallel_for_ok [of rs body "\<lambda>r. projr (body (fst r) (snd r))", OF b]
    by (simp add: interleavings_nonempty)
qed

lemma both_points_drain0: "drain exclude_self 0 (fst (query_next (both_points 0))) (snd (query_next (both_points 0)))
      = [QueryCall 1 0 0 1]"
   by (simp add: drain_unfold both_points_def query_next_def query_end_def exclude_self_def)
lemma both_points_drain1: "drain exclude_self 1 (fst (query_next (both_points 1))) (snd (query_next (both_points 1)))
      = [QueryCall 0 1 0 1]"
   by (simp add: drain_unfold both_points_def query_next_def query_end_def exclude_self_def)
lemma both_points_loop0: "query_loop exclude_self both_points 0 1 = Inr [QueryCall 1 0 0 1]"
    using query_loop_unfold(1) [of 0 1 exclude_self both_points]
      both_points_drain0
    by (simp add: query_loop_unfold(2))
lemma both_points_loop1: "query_loop exclude_self both_points 1 2 = Inr [QueryCall 0 1 0 1]"
    using query_loop_unfold(1) [of 1 2 exclude_self both_points]
      both_points_drain1
    by (simp add: query_loop_unfold(2))


text \<open>
  C7. In live-query mode, whatever the query iterators yield and however the query points
  are partitioned, the driver runs without fault, and every invocation of the pairwise
  function has weight 1 and, when \<^verbatim>\<open>exclude_ii\<close> is set, a reference id different from the
  query point index.
\<close>

theorem live_query_calls:
  "loop_over_NeighborList rs aabb_queryWithArgs queryWithArgs ref_points Np qargs None \<noteq> {}
   \<and> (\<forall>out \<in> loop_over_NeighborList rs aabb_queryWithArgs queryWithArgs ref_points Np qargs None.
        \<exists>tr. out = Inr tr \<and> (\<forall>c \<in> set tr. live_call_ok qargs c))"
proof -
  define iter where "iter = (case ref_points of RawPoints rp \<Rightarrow> aabb_queryWithArgs rp
     | Query q \<Rightarrow> queryWithArgs q)"
  have l: "loop_over_NeighborList rs aabb_queryWithArgs queryWithArgs ref_points Np qargs None
      = parallel_for rs (query_loop qargs iter)"
    unfolding loop_over_NeighborList_def for_loop_wrapper_def iter_def Let_def
    by (simp only: option.case if_True)
  have ok: "\<exists>cs. query_loop qargs iter b e = Inr cs \<and> (\<forall>c \<in> set cs. live_call_ok qargs c)"
    for b e by (rule query_loop_ok)
  have ok': "\<exists>cs. query_loop qargs iter b e = Inr cs" for b e
    using ok [of b e] by (elim exE conjE) (rule exI)
  have ne: "parallel_for rs (query_loop qargs iter) \<noteq> {}"
    by (rule parallel_for_nonempty [OF ok'])
  have al: "\<exists>tr. out = Inr tr \<and> (\<forall>c \<in> set tr. live_call_ok qargs c)"
    if "out \<in> parallel_for rs (query_loop qargs iter)" for out
    by (rule parallel_for_all [where P = "live_call_ok qargs", OF ok that])
  show ?thesis
    unfolding l
  proof (intro conjI ballI)
    show "parallel_for rs (query_loop qargs iter) \<noteq> {}" by (rule ne)
  next
    fix out assume "out \<in> parallel_for rs (query_loop qargs iter)"
    then show "\<exists>tr. out = Inr tr \<and> (\<forall>c \<in> set tr. live_call_ok qargs c)" by (rule al)
  qed
qed


theorem live_query_calls_witness:
  "Inr [QueryCall 1 0 0 1, QueryCall 0 1 0 1]
     \<in> loop_over_NeighborList [(0, 1), (1, 2)] (\<lambda>r :: unit. both_points)
         (\<lambda>q :: unit. both_points) (Query ()) 2 exclude_self None
   \<and> live_call_ok exclude_self (QueryCall 1 0 0 1 :: int pair_call)
   \<and> live_call_ok exclude_self (QueryCall 0 1 0 1 :: int pair_call)"
proof -
  let ?L = "loop_over_NeighborList [(0, 1), (1, 2)] (\<lambda>r :: unit. both_points)
         (\<lambda>q :: unit. both_points) (Query ()) 2 exclude_self None"
  have mem: "Inr [QueryCall 1 0 0 1, QueryCall 0 1 0 1] \<in> ?L"
    by (simp add: loop_over_NeighborList_def for_loop_wrapper_def parallel_for_def
        both_points_loop0 both_points_loop1)
  from live_query_calls [of "[(0, 1), (1, 2)]" "\<lambda>r :: unit. both_points"
      "\<lambda>q :: unit. both_points" "Query ()" 2 exclude_self]
  have "\<forall>out \<in> ?L. \<exists>tr. out = Inr tr \<and> (\<forall>c \<in> set tr. live_call_ok exclude_self c)"
    by (rule conjunct2)
  from bspec [OF this mem]
  have "\<forall>c \<in> set [QueryCall 1 0 0 1, QueryCall 0 1 0 1].
      live_call_ok exclude_self (c :: int pair_call)"
    by auto
  then have "live_call_ok exclude_self (QueryCall 1 0 0 1 :: int pair_call)"
    "live_call_ok exclude_self (QueryCall 0 1 0 1 :: int pair_call)"
    by simp_all
  then show ?thesis using mem by (intro conjI)
qed

end
